theory Spec2Isabelle
  imports Main
begin

section \<open>Data model\<close>

text \<open>
  Entries are objects: the primary map and the eviction list both hold references to
  them, and the list links them through their \<open>prev\<close>/\<open>next\<close> fields. The model
  keeps an explicit object store (\<open>heap\<close>) from references to entries; a reference is the
  allocation number of the object. Time stamps are the integer milliseconds of
  \<open>Date.now()\<close>, passed to every operation as \<open>now\<close>.
\<close>

type_synonym ref = nat
type_synonym opid = nat
type_synonym sigid = nat

datatype EvictReason = Expired | Evicted | Manual | Clear

datatype CacheEvent = Hit | Miss | SetEv | Evict | Load | Stale

text \<open>
  Modelled from the spec: the class \<open>CacheEntry\<close> (\<open>cache-entry.ts\<close>) is not among the
  sources. Its fields are the ones the callers read and write (\<open>key\<close>, \<open>value\<close>,
  \<open>expiresAt\<close>, \<open>staleUntil\<close>, \<open>prev\<close>, \<open>next\<close>); its constructor takes the first four
  and leaves both links cleared.
\<close>

record ('k, 'v) CacheEntry =
  key :: 'k
  val :: 'v
  expiresAt :: int
  staleUntil :: int
  prev :: "ref option"
  nxt :: "ref option"

definition newCacheEntry :: "'k \<Rightarrow> 'v \<Rightarrow> int \<Rightarrow> int \<Rightarrow> ('k, 'v) CacheEntry" where
  "newCacheEntry k v e s =
     \<lparr>key = k, val = v, expiresAt = e, staleUntil = s, prev = None, nxt = None\<rparr>"

text \<open>
  Modelled from the spec: the three freshness predicates of \<open>CacheEntry\<close>, which are
  not among the sources. Fresh: \<open>now < expiresAt\<close>; stale:
  \<open>expiresAt \<le> now < staleUntil\<close>; expired: \<open>now \<ge> staleUntil\<close>.
\<close>

definition isFresh :: "('k, 'v) CacheEntry \<Rightarrow> int \<Rightarrow> bool" where
  "isFresh e now \<longleftrightarrow> now < expiresAt e"

definition isStale :: "('k, 'v) CacheEntry \<Rightarrow> int \<Rightarrow> bool" where
  "isStale e now \<longleftrightarrow> expiresAt e \<le> now \<and> now < staleUntil e"

definition isExpired :: "('k, 'v) CacheEntry \<Rightarrow> int \<Rightarrow> bool" where
  "isExpired e now \<longleftrightarrow> staleUntil e \<le> now"

type_synonym ('k, 'v) heap = "ref \<Rightarrow> ('k, 'v) CacheEntry option"

text \<open>A field assignment \<open>e.f = x\<close> on the object at \<open>r\<close>.\<close>

definition upd :: "('k, 'v) heap \<Rightarrow> ref \<Rightarrow> (('k, 'v) CacheEntry \<Rightarrow> ('k, 'v) CacheEntry) \<Rightarrow> ('k, 'v) heap" where
  "upd h r f = (case h r of None \<Rightarrow> h | Some e \<Rightarrow> h(r \<mapsto> f e))"

subsection \<open>DoublyLinkedList\<close>

record DoublyLinkedList =
  head :: "ref option"
  tail :: "ref option"

definition emptyList :: DoublyLinkedList where
  "emptyList = \<lparr>head = None, tail = None\<rparr>"

definition addToFront :: "('k, 'v) heap \<times> DoublyLinkedList \<Rightarrow> ref \<Rightarrow> ('k, 'v) heap \<times> DoublyLinkedList" where
  "addToFront hl r =
     (let (h, l) = hl;
          h1 = upd h r (\<lambda>e. e\<lparr>prev := None, nxt := head l\<rparr>);
          h2 = (case head l of Some old \<Rightarrow> upd h1 old (\<lambda>e. e\<lparr>prev := Some r\<rparr>) | None \<Rightarrow> h1);
          l1 = l\<lparr>head := Some r\<rparr>;
          l2 = (if tail l1 = None then l1\<lparr>tail := Some r\<rparr> else l1)
      in (h2, l2))"

definition remove :: "('k, 'v) heap \<times> DoublyLinkedList \<Rightarrow> ref \<Rightarrow> ('k, 'v) heap \<times> DoublyLinkedList" where
  "remove hl r =
     (let (h, l) = hl in
      case h r of
        None \<Rightarrow> (h, l)
      | Some e \<Rightarrow>
          let (h1, l1) = (case prev e of
                            Some p \<Rightarrow> (upd h p (\<lambda>x. x\<lparr>nxt := nxt e\<rparr>), l)
                          | None \<Rightarrow> (h, l\<lparr>head := nxt e\<rparr>));
              (h2, l2) = (case nxt e of
                            Some n \<Rightarrow> (upd h1 n (\<lambda>x. x\<lparr>prev := prev e\<rparr>), l1)
                          | None \<Rightarrow> (h1, l1\<lparr>tail := prev e\<rparr>))
          in (upd h2 r (\<lambda>x. x\<lparr>prev := None, nxt := None\<rparr>), l2))"

definition moveToFront :: "('k, 'v) heap \<times> DoublyLinkedList \<Rightarrow> ref \<Rightarrow> ('k, 'v) heap \<times> DoublyLinkedList" where
  "moveToFront hl r =
     (if head (snd hl) = Some r then hl else addToFront (remove hl r) r)"

definition removeTail :: "('k, 'v) heap \<times> DoublyLinkedList \<Rightarrow> ref option \<times> ('k, 'v) heap \<times> DoublyLinkedList" where
  "removeTail hl =
     (case tail (snd hl) of
        None \<Rightarrow> (None, hl)
      | Some r \<Rightarrow> (Some r, remove hl r))"

definition listClear :: "DoublyLinkedList \<Rightarrow> DoublyLinkedList" where
  "listClear l = l\<lparr>head := None, tail := None\<rparr>"


section \<open>TtlCache\<close>

text \<open>
  The primary map is a JavaScript \<open>Map\<close>, which iterates in insertion order: an
  association list from keys to entry references, a new key appended at the end.
\<close>

type_synonym 'k store = "('k \<times> ref) list"

fun mapSet :: "'k store \<Rightarrow> 'k \<Rightarrow> ref \<Rightarrow> 'k store" where
  "mapSet [] k r = [(k, r)]"
| "mapSet ((k', r') # m) k r = (if k' = k then (k, r) # m else (k', r') # mapSet m k r)"

definition mapDelete :: "'k store \<Rightarrow> 'k \<Rightarrow> 'k store" where
  "mapDelete m k = filter (\<lambda>kr. fst kr \<noteq> k) m"

record CacheStats =
  hits :: nat
  misses :: nat
  stale :: nat
  loads :: nat
  evictions :: nat

text \<open>
  What the cache tells its observers, in the order it happens: a call of the \<open>onEvict\<close>
  callback, or an event given to the emitter. Both are recorded whether or not a
  callback or a handler is registered.
\<close>

datatype ('k, 'v) obs = OnEvict 'k 'v EvictReason | Emit CacheEvent 'k "'v option"

text \<open>
  The asynchronous part. A loader is opaque: \<open>executeLoader\<close> calls it once and
  suspends at its \<open>await\<close>; the value or the error arrives later, as a step of its own
  (\<open>settle\<close>). A pending execution is a \<open>LoadOp\<close>: the key and options its continuation
  will write with, and whether \<open>refreshInBackground\<close> has chained its clean-up on it.
  The promise a caller of \<open>getOrSet\<close> holds is waiting on an operation (with the signal
  it races against, and whether the caller is inside the \<open>try\<close>/\<open>finally\<close> that deletes
  the registry entry), resolved or rejected.
\<close>

datatype failure = AbortError | LoaderError string

datatype 'v settled = Ok 'v | Err string

datatype 'v promise = Waiting opid "sigid option" bool | Resolved 'v | Rejected failure

record 'k LoadOp =
  op_key :: 'k
  op_ttlMs :: "int option"
  op_swrMs :: "int option"
  op_detached :: bool

record GetOrSetOptions =
  ttlMs :: "int option"
  swrMs :: "int option"
  dedupe :: "bool option"
  signal :: "sigid option"

record ('k, 'v) TtlCache =
  heap :: "('k, 'v) heap"
  nextRef :: ref
  map_store :: "'k store"
  list :: DoublyLinkedList
  inflight :: "'k \<Rightarrow> opid option"
  defaultTtlMs :: int
  maxSize :: "nat option"
  stats :: CacheStats
  observed :: "('k, 'v) obs list"
  ops :: "opid \<Rightarrow> 'k LoadOp option"
  nextOp :: opid
  promises :: "'v promise list"
  aborted :: "sigid list"

definition DEFAULT_TTL_MS :: int where
  "DEFAULT_TTL_MS = 30000"

text \<open>
  The constructor, from the options \<open>ttlMs\<close> and \<open>maxSize\<close>. The capacity bound is a
  number of entries.
\<close>

definition newTtlCache :: "int option \<Rightarrow> nat option \<Rightarrow> ('k, 'v) TtlCache" where
  "newTtlCache ttl bound =
     \<lparr>heap = (\<lambda>r. None), nextRef = 0, map_store = [], list = emptyList,
      inflight = (\<lambda>k. None),
      defaultTtlMs = (case ttl of None \<Rightarrow> DEFAULT_TTL_MS | Some t \<Rightarrow> t),
      maxSize = bound,
      stats = \<lparr>hits = 0, misses = 0, stale = 0, loads = 0, evictions = 0\<rparr>,
      observed = [], ops = (\<lambda>i. None), nextOp = 0, promises = [], aborted = []\<rparr>"

text \<open>\<open>this.map.get(key)\<close>: the entry object under the key, with its reference.\<close>

definition mapGet :: "('k, 'v) TtlCache \<Rightarrow> 'k \<Rightarrow> (ref \<times> ('k, 'v) CacheEntry) option" where
  "mapGet c k =
     (case map_of (map_store c) k of
        None \<Rightarrow> None
      | Some r \<Rightarrow> (case heap c r of None \<Rightarrow> None | Some e \<Rightarrow> Some (r, e)))"

definition emit :: "('k, 'v) TtlCache \<Rightarrow> ('k, 'v) obs \<Rightarrow> ('k, 'v) TtlCache" where
  "emit c x = c\<lparr>observed := observed c @ [x]\<rparr>"

definition removeEntry :: "('k, 'v) TtlCache \<Rightarrow> ref \<Rightarrow> EvictReason \<Rightarrow> ('k, 'v) TtlCache" where
  "removeEntry c r reason =
     (case heap c r of
        None \<Rightarrow> c
      | Some e \<Rightarrow>
          let (h, l) = remove (heap c, list c) r;
              c1 = c\<lparr>heap := h, list := l, map_store := mapDelete (map_store c) (key e)\<rparr>;
              c2 = (if reason = Expired \<or> reason = Evicted
                    then c1\<lparr>stats := (stats c1)\<lparr>evictions := evictions (stats c1) + 1\<rparr>\<rparr>
                    else c1)
          in emit (emit c2 (OnEvict (key e) (val e) reason)) (Emit Evict (key e) (Some (val e))))"


text \<open>
  \<open>enforceMaxSize\<close>: a \<open>while\<close> loop, which on a list whose links do not lead back to
  \<open>null\<close> need not end; not returning is the value \<open>None\<close>.
\<close>

partial_function (option) enforceLoop :: "nat \<Rightarrow> ('k, 'v) TtlCache \<Rightarrow> ('k, 'v) TtlCache option" where
  "enforceLoop m c =
     (if length (map_store c) > m then
        (case removeTail (heap c, list c) of
           (None, hl) \<Rightarrow> Some c
         | (Some r, h, l) \<Rightarrow>
             (case h r of
                None \<Rightarrow> Some c
              | Some e \<Rightarrow>
                  let c1 = c\<lparr>heap := h, list := l, map_store := mapDelete (map_store c) (key e)\<rparr>;
                      c2 = c1\<lparr>stats := (stats c1)\<lparr>evictions := evictions (stats c1) + 1\<rparr>\<rparr>;
                      c3 = emit (emit c2 (OnEvict (key e) (val e) Evicted)) (Emit Evict (key e) (Some (val e)))
                  in enforceLoop m c3))
      else Some c)"

definition enforceMaxSize :: "('k, 'v) TtlCache \<Rightarrow> ('k, 'v) TtlCache option" where
  "enforceMaxSize c = (case maxSize c of None \<Rightarrow> Some c | Some m \<Rightarrow> enforceLoop m c)"

text \<open>
  The body shared by \<open>set\<close> and \<open>setWithSwr\<close>, which differ only in \<open>staleUntil\<close>:
  update in place and promote, or create, insert at the front and enforce the bound;
  then the \<open>set\<close> event.
\<close>

definition writeEntry :: "('k, 'v) TtlCache \<Rightarrow> 'k \<Rightarrow> 'v \<Rightarrow> int \<Rightarrow> int \<Rightarrow> ('k, 'v) TtlCache option" where
  "writeEntry c k v e s =
     (case (case mapGet c k of
              Some (r, existing) \<Rightarrow>
                let h1 = upd (heap c) r (\<lambda>x. x\<lparr>val := v, expiresAt := e, staleUntil := s\<rparr>);
                    (h2, l2) = moveToFront (h1, list c) r
                in Some (c\<lparr>heap := h2, list := l2\<rparr>)
            | None \<Rightarrow>
                let r = nextRef c;
                    h1 = (heap c)(r \<mapsto> newCacheEntry k v e s);
                    m1 = mapSet (map_store c) k r;
                    (h2, l2) = addToFront (h1, list c) r
                in enforceMaxSize (c\<lparr>heap := h2, nextRef := r + 1, map_store := m1, list := l2\<rparr>)) of
        None \<Rightarrow> None
      | Some c' \<Rightarrow> Some (emit c' (Emit SetEv k (Some v))))"

definition set_value :: "('k, 'v) TtlCache \<Rightarrow> 'k \<Rightarrow> 'v \<Rightarrow> int option \<Rightarrow> int \<Rightarrow> ('k, 'v) TtlCache option" where
  "set_value c k v ttlOpt now =
     (let ttl = (case ttlOpt of None \<Rightarrow> defaultTtlMs c | Some t \<Rightarrow> t);
          expiresAt = now + ttl;
          staleUntil = expiresAt
      in writeEntry c k v expiresAt staleUntil)"

definition setWithSwr :: "('k, 'v) TtlCache \<Rightarrow> 'k \<Rightarrow> 'v \<Rightarrow> int option \<Rightarrow> int option \<Rightarrow> int \<Rightarrow> ('k, 'v) TtlCache option" where
  "setWithSwr c k v ttlOpt swrOpt now =
     (let ttl = (case ttlOpt of None \<Rightarrow> defaultTtlMs c | Some t \<Rightarrow> t);
          swr = (case swrOpt of None \<Rightarrow> 0 | Some w \<Rightarrow> w);
          expiresAt = now + ttl;
          staleUntil = expiresAt + swr
      in writeEntry c k v expiresAt staleUntil)"

definition countMiss :: "('k, 'v) TtlCache \<Rightarrow> 'k \<Rightarrow> ('k, 'v) TtlCache" where
  "countMiss c k = emit (c\<lparr>stats := (stats c)\<lparr>misses := misses (stats c) + 1\<rparr>\<rparr>) (Emit Miss k None)"

definition countHit :: "('k, 'v) TtlCache \<Rightarrow> ref \<Rightarrow> ('k, 'v) CacheEntry \<Rightarrow> 'k \<Rightarrow> ('k, 'v) TtlCache" where
  "countHit c r e k =
     (let (h, l) = moveToFront (heap c, list c) r;
          c1 = c\<lparr>heap := h, list := l\<rparr>;
          c2 = c1\<lparr>stats := (stats c1)\<lparr>hits := hits (stats c1) + 1\<rparr>\<rparr>
      in emit c2 (Emit Hit k (Some (val e))))"

definition get :: "('k, 'v) TtlCache \<Rightarrow> 'k \<Rightarrow> int \<Rightarrow> 'v option \<times> ('k, 'v) TtlCache" where
  "get c k now =
     (case mapGet c k of
        None \<Rightarrow> (None, countMiss c k)
      | Some (r, e) \<Rightarrow>
          if \<not> isFresh e now then
            (None, countMiss (if isExpired e now then removeEntry c r Expired else c) k)
          else (Some (val e), countHit c r e k))"

definition peek :: "('k, 'v) TtlCache \<Rightarrow> 'k \<Rightarrow> int \<Rightarrow> 'v option \<times> ('k, 'v) TtlCache" where
  "peek c k now =
     (case mapGet c k of
        None \<Rightarrow> (None, c)
      | Some (r, e) \<Rightarrow>
          if isExpired e now then (None, removeEntry c r Expired)
          else (Some (val e), c))"

definition has :: "('k, 'v) TtlCache \<Rightarrow> 'k \<Rightarrow> int \<Rightarrow> bool \<times> ('k, 'v) TtlCache" where
  "has c k now =
     (case mapGet c k of
        None \<Rightarrow> (False, c)
      | Some (r, e) \<Rightarrow>
          if isExpired e now then (False, removeEntry c r Expired)
          else (True, c))"

definition delete :: "('k, 'v) TtlCache \<Rightarrow> 'k \<Rightarrow> bool \<times> ('k, 'v) TtlCache" where
  "delete c k =
     (case mapGet c k of
        None \<Rightarrow> (False, c)
      | Some (r, e) \<Rightarrow> (True, removeEntry c r Manual))"

definition clearEntry :: "('k, 'v) heap \<Rightarrow> 'k \<times> ref \<Rightarrow> ('k, 'v) TtlCache \<Rightarrow> ('k, 'v) TtlCache" where
  "clearEntry h kr c =
     (case h (snd kr) of
        None \<Rightarrow> c
      | Some e \<Rightarrow> emit (emit c (OnEvict (key e) (val e) Clear)) (Emit Evict (key e) (Some (val e))))"

definition clear :: "('k, 'v) TtlCache \<Rightarrow> ('k, 'v) TtlCache" where
  "clear c =
     (let c1 = fold (clearEntry (heap c)) (map_store c) c
      in c1\<lparr>map_store := [], list := listClear (list c1)\<rparr>)"

definition size_of :: "('k, 'v) TtlCache \<Rightarrow> nat" where
  "size_of c = length (map_store c)"

text \<open>
  \<open>sweep\<close> walks \<open>this.map.values()\<close> and removes the entry it stands on; the entries
  still to come are those of the map when the walk began.
\<close>

definition sweepEntry :: "int \<Rightarrow> 'k \<times> ref \<Rightarrow> ('k, 'v) TtlCache \<Rightarrow> ('k, 'v) TtlCache" where
  "sweepEntry now kr c =
     (case heap c (snd kr) of
        None \<Rightarrow> c
      | Some e \<Rightarrow> if isExpired e now then removeEntry c (snd kr) Expired else c)"

definition sweep :: "('k, 'v) TtlCache \<Rightarrow> int \<Rightarrow> ('k, 'v) TtlCache" where
  "sweep c now = fold (sweepEntry now) (map_store c) c"

definition prune :: "('k, 'v) TtlCache \<Rightarrow> int \<Rightarrow> ('k, 'v) TtlCache" where
  "prune c now = sweep c now"


subsection \<open>The asynchronous getOrSet\<close>

text \<open>
  JavaScript runs each piece of code between two suspension points to completion, so a
  call of \<open>getOrSet\<close> is one step up to its first \<open>await\<close>; the settling of a loader
  and the abort of a signal are steps of their own, each taken together with the
  continuations it wakes (the microtasks it queues run before anything else calls the
  cache). \<open>executeLoader\<close> calls the loader before its own \<open>await\<close>, inside the
  caller's step: the number of loader calls so far is \<open>nextOp\<close>. Loaders, the
  \<open>onEvict\<close> callback and event handlers are taken not to call back into the cache
  while they run.
\<close>

definition executeLoader :: "('k, 'v) TtlCache \<Rightarrow> 'k \<Rightarrow> GetOrSetOptions \<Rightarrow> opid \<times> ('k, 'v) TtlCache" where
  "executeLoader c k opts =
     (let i = nextOp c
      in (i, c\<lparr>ops := (ops c)(i \<mapsto> \<lparr>op_key = k, op_ttlMs = ttlMs opts, op_swrMs = swrMs opts,
                                      op_detached = False\<rparr>),
                nextOp := i + 1\<rparr>))"

definition refreshInBackground :: "('k, 'v) TtlCache \<Rightarrow> 'k \<Rightarrow> GetOrSetOptions \<Rightarrow> ('k, 'v) TtlCache" where
  "refreshInBackground c k opts =
     (if inflight c k \<noteq> None then c
      else let (i, c1) = executeLoader c k opts;
               c2 = c1\<lparr>inflight := (inflight c1)(k \<mapsto> i)\<rparr>
           in c2\<lparr>ops := (\<lambda>j. if j = i then map_option (\<lambda>x. x\<lparr>op_detached := True\<rparr>) (ops c2 j)
                                else ops c2 j)\<rparr>)"

definition returnPromise :: "('k, 'v) TtlCache \<Rightarrow> 'v promise \<Rightarrow> ('k, 'v) TtlCache" where
  "returnPromise c p = c\<lparr>promises := promises c @ [p]\<rparr>"

text \<open>
  The promise of the call is the last of \<open>promises\<close> afterwards, at the index
  \<open>length (promises c)\<close>.
\<close>

definition getOrSet :: "('k, 'v) TtlCache \<Rightarrow> 'k \<Rightarrow> GetOrSetOptions \<Rightarrow> int \<Rightarrow> ('k, 'v) TtlCache" where
  "getOrSet c k opts now =
     (if (case signal opts of None \<Rightarrow> False | Some sg \<Rightarrow> sg \<in> set (aborted c))
      then returnPromise c (Rejected AbortError)
      else
        let entry = mapGet c k in
        if (case entry of None \<Rightarrow> False | Some (r, e) \<Rightarrow> isFresh e now) then
          (case entry of
             None \<Rightarrow> c
           | Some (r, e) \<Rightarrow> returnPromise (countHit c r e k) (Resolved (val e)))
        else if (case entry of None \<Rightarrow> False | Some (r, e) \<Rightarrow> isStale e now) then
          (case entry of
             None \<Rightarrow> c
           | Some (r, e) \<Rightarrow>
               let (h, l) = moveToFront (heap c, list c) r;
                   c1 = c\<lparr>heap := h, list := l\<rparr>;
                   c2 = c1\<lparr>stats := (stats c1)\<lparr>stale := stale (stats c1) + 1\<rparr>\<rparr>;
                   c3 = emit c2 (Emit Stale k (Some (val e)));
                   c4 = refreshInBackground c3 k opts
               in returnPromise c4 (Resolved (val e)))
        else
          let c1 = (case entry of None \<Rightarrow> c | Some (r, e) \<Rightarrow> removeEntry c r Expired);
              c2 = countMiss c1 k;
              dd = (dedupe opts \<noteq> Some False)
          in case (if dd then inflight c2 k else None) of
               Some existing \<Rightarrow> returnPromise c2 (Waiting existing (signal opts) False)
             | None \<Rightarrow>
                 let (i, c3) = executeLoader c2 k opts;
                     c4 = (if dd then c3\<lparr>inflight := (inflight c3)(k \<mapsto> i)\<rparr> else c3)
                 in returnPromise c4 (Waiting i (signal opts) dd))"

text \<open>
  A loader settles: the continuation of \<open>executeLoader\<close> runs (on a value,
  \<open>setWithSwr\<close>, the \<open>loads\<close> counter and the \<open>load\<close> event), then the reactions chained on
  its promise: the \<open>finally\<close> of \<open>refreshInBackground\<close>, and for every caller still
  waiting on it the result and, where the caller is in the \<open>try\<close>/\<open>finally\<close> of
  \<open>getOrSet\<close> with \<open>dedupe\<close>, the deletion of the registry entry.
\<close>

definition deliver :: "opid \<Rightarrow> 'v settled \<Rightarrow> 'v promise \<Rightarrow> 'v promise" where
  "deliver i res p =
     (case p of
        Waiting j sg fin \<Rightarrow>
          if j = i then (case res of Ok v \<Rightarrow> Resolved v | Err x \<Rightarrow> Rejected (LoaderError x)) else p
      | _ \<Rightarrow> p)"

definition hasFinally :: "'v promise list \<Rightarrow> opid \<Rightarrow> bool" where
  "hasFinally ps i = (\<exists>p \<in> set ps. case p of Waiting j sg fin \<Rightarrow> j = i \<and> fin | _ \<Rightarrow> False)"

definition settle :: "('k, 'v) TtlCache \<Rightarrow> opid \<Rightarrow> 'v settled \<Rightarrow> int \<Rightarrow> ('k, 'v) TtlCache option" where
  "settle c i res now =
     (case ops c i of
        None \<Rightarrow> Some c
      | Some operation \<Rightarrow>
          (case (case res of
                   Err x \<Rightarrow> Some c
                 | Ok v \<Rightarrow>
                     (case setWithSwr c (op_key operation) v (op_ttlMs operation) (op_swrMs operation) now of
                        None \<Rightarrow> None
                      | Some c1 \<Rightarrow>
                          Some (emit (c1\<lparr>stats := (stats c1)\<lparr>loads := loads (stats c1) + 1\<rparr>\<rparr>)
                                     (Emit Load (op_key operation) (Some v))))) of
             None \<Rightarrow> None
           | Some c2 \<Rightarrow>
               Some (c2\<lparr>ops := (ops c2)(i := None),
                        inflight := (if op_detached operation \<or> hasFinally (promises c2) i
                                     then (inflight c2)(op_key operation := None)
                                     else inflight c2),
                        promises := map (deliver i res) (promises c2)\<rparr>)))"

text \<open>
  A signal aborts: every caller still waiting with that signal is rejected by its
  \<open>withAbort\<close>, and a caller in the \<open>try\<close>/\<open>finally\<close> with \<open>dedupe\<close> deletes the registry
  entry of its key on the way out. The loader it started is left running.
\<close>

definition cancel :: "sigid \<Rightarrow> 'v promise \<Rightarrow> 'v promise" where
  "cancel sg p =
     (case p of
        Waiting j s fin \<Rightarrow> if s = Some sg then Rejected AbortError else p
      | _ \<Rightarrow> p)"

definition finallyKeys :: "('k, 'v) TtlCache \<Rightarrow> sigid \<Rightarrow> 'k list" where
  "finallyKeys c sg =
     concat (map (\<lambda>p. case p of
                        Waiting j s fin \<Rightarrow>
                          (if s = Some sg \<and> fin
                           then (case ops c j of None \<Rightarrow> [] | Some operation \<Rightarrow> [op_key operation])
                           else [])
                      | _ \<Rightarrow> [])
                 (promises c))"

definition abort :: "('k, 'v) TtlCache \<Rightarrow> sigid \<Rightarrow> ('k, 'v) TtlCache" where
  "abort c sg =
     (if sg \<in> set (aborted c) then c
      else c\<lparr>aborted := sg # aborted c,
             inflight := fold (\<lambda>k f. f(k := None)) (finallyKeys c sg) (inflight c),
             promises := map (cancel sg) (promises c)\<rparr>)"

subsection \<open>Iteration\<close>

text \<open>
  \<open>[Symbol.iterator]\<close> is a generator: it runs from one \<open>yield\<close> to the next at each
  \<open>next()\<close> of its consumer, and whatever the consumer does with the cache in between
  happens in between. The generator object keeps the time read at its first step, the
  entries its walk of \<open>this.map.values()\<close> has passed, and its array \<open>expired\<close>. A
  \<open>Map\<close> iterator visits every entry that is in the map when it comes to it, once, in
  insertion order: the next entry is the first of the map that the walk has not passed.
\<close>

record Generator =
  gen_now :: "int option"
  gen_seen :: "ref list"
  gen_expired :: "ref list"
  gen_done :: bool

definition newGenerator :: Generator where
  "newGenerator = \<lparr>gen_now = None, gen_seen = [], gen_expired = [], gen_done = False\<rparr>"

fun scan :: "('k, 'v) heap \<Rightarrow> int \<Rightarrow> 'k store \<Rightarrow> ref list \<Rightarrow> ref list \<Rightarrow> ('k \<times> 'v) option \<times> ref list \<times> ref list" where
  "scan h now [] seen expired = (None, seen, expired)"
| "scan h now ((k, r) # rest) seen expired =
     (case h r of
        None \<Rightarrow> scan h now rest (seen @ [r]) expired
      | Some e \<Rightarrow>
          if isExpired e now then scan h now rest (seen @ [r]) (expired @ [r])
          else if isFresh e now then (Some (key e, val e), seen @ [r], expired)
          else scan h now rest (seen @ [r]) expired)"

definition generatorNext :: "('k, 'v) TtlCache \<Rightarrow> Generator \<Rightarrow> int \<Rightarrow> ('k \<times> 'v) option \<times> Generator \<times> ('k, 'v) TtlCache" where
  "generatorNext c g now =
     (if gen_done g then (None, g, c)
      else
        let t = (case gen_now g of None \<Rightarrow> now | Some t0 \<Rightarrow> t0);
            unseen = filter (\<lambda>kr. snd kr \<notin> set (gen_seen g)) (map_store c);
            (res, seen, expired) = scan (heap c) t unseen (gen_seen g) (gen_expired g);
            g1 = g\<lparr>gen_now := Some t, gen_seen := seen, gen_expired := expired\<rparr>
        in case res of
             Some kv \<Rightarrow> (Some kv, g1, c)
           | None \<Rightarrow> (None, g1\<lparr>gen_done := True\<rparr>,
                      fold (\<lambda>r c'. removeEntry c' r Expired) expired c))"

subsection \<open>Runs\<close>

text \<open>
  A run of the cache: the calls of its users, the settling of loaders and the aborts of
  signals, each at the time \<open>Date.now()\<close> shows then. A run that does not return has
  no state.
\<close>

datatype ('k, 'v) action =
    CallSet 'k 'v "int option"
  | CallGet 'k
  | CallPeek 'k
  | CallHas 'k
  | CallDelete 'k
  | CallClear
  | CallPrune
  | CallGetOrSet 'k GetOrSetOptions
  | LoaderSettles opid "'v settled"
  | SignalAborts sigid

fun step :: "('k, 'v) TtlCache \<Rightarrow> int \<times> ('k, 'v) action \<Rightarrow> ('k, 'v) TtlCache option" where
  "step c (now, CallSet k v ttl) = set_value c k v ttl now"
| "step c (now, CallGet k) = Some (snd (get c k now))"
| "step c (now, CallPeek k) = Some (snd (peek c k now))"
| "step c (now, CallHas k) = Some (snd (has c k now))"
| "step c (now, CallDelete k) = Some (snd (delete c k))"
| "step c (now, CallClear) = Some (clear c)"
| "step c (now, CallPrune) = Some (prune c now)"
| "step c (now, CallGetOrSet k opts) = Some (getOrSet c k opts now)"
| "step c (now, LoaderSettles i res) = settle c i res now"
| "step c (now, SignalAborts sg) = Some (abort c sg)"

fun run :: "('k, 'v) TtlCache \<Rightarrow> (int \<times> ('k, 'v) action) list \<Rightarrow> ('k, 'v) TtlCache option" where
  "run c [] = Some c"
| "run c (a # as) = (case step c a of None \<Rightarrow> None | Some c' \<Rightarrow> run c' as)"

section \<open>The eviction list as a list of references\<close>


fun seg :: "(('k, 'v) CacheEntry \<Rightarrow> ref option) \<Rightarrow> ('k, 'v) heap \<Rightarrow> ref option \<Rightarrow> ref list \<Rightarrow> ref option \<Rightarrow> bool" where
  "seg f h p [] q \<longleftrightarrow> p = q"
| "seg f h p (x # xs) q \<longleftrightarrow> p = Some x \<and> (case h x of None \<Rightarrow> False | Some e \<Rightarrow> seg f h (f e) xs q)"

definition dll :: "('k, 'v) heap \<Rightarrow> DoublyLinkedList \<Rightarrow> ref list \<Rightarrow> bool" where
  "dll h l xs \<longleftrightarrow> seg nxt h (head l) xs None \<and> seg prev h (tail l) (rev xs) None \<and> distinct xs"

definition payload :: "('k, 'v) CacheEntry \<Rightarrow> 'k \<times> 'v \<times> int \<times> int" where
  "payload e = (key e, val e, expiresAt e, staleUntil e)"

definition same_data :: "('k, 'v) heap \<Rightarrow> ('k, 'v) heap \<Rightarrow> bool" where
  "same_data h h' \<longleftrightarrow> (\<forall>x. map_option payload (h' x) = map_option payload (h x))"


text \<open>
  The eviction order as the code can read it: the references met from \<open>head\<close> along the
  \<open>next\<close> links, most recently used first, and the keys of these entries. The walk stops
  after as many entries as the map holds.
\<close>

fun walk :: "('k, 'v) heap \<Rightarrow> ref option \<Rightarrow> nat \<Rightarrow> ref list" where
  "walk h p 0 = []"
| "walk h p (Suc n) =
     (case p of
        None \<Rightarrow> []
      | Some x \<Rightarrow> x # (case h x of None \<Rightarrow> [] | Some e \<Rightarrow> walk h (nxt e) n))"

definition order :: "('k, 'v) TtlCache \<Rightarrow> ref list" where
  "order c = walk (heap c) (head (list c)) (length (map_store c))"

definition keysOf :: "('k, 'v) heap \<Rightarrow> ref list \<Rightarrow> 'k list" where
  "keysOf h rs = concat (map (\<lambda>r. case h r of None \<Rightarrow> [] | Some e \<Rightarrow> [key e]) rs)"

definition recency :: "('k, 'v) TtlCache \<Rightarrow> 'k list" where
  "recency c = keysOf (heap c) (order c)"

text \<open>
  The correspondence of the primary map and the eviction list, for a list \<open>xs\<close> of
  references: the list links exactly \<open>xs\<close>, in both directions and without repetition;
  no key and no entry occurs twice in the map; the entries of the map are those of the
  list; and the entry under a key carries that key. References in use lie below the
  allocation counter.
\<close>

definition wf :: "('k, 'v) TtlCache \<Rightarrow> ref list \<Rightarrow> bool" where
  "wf c xs \<longleftrightarrow>
     dll (heap c) (list c) xs \<and>
     distinct (map fst (map_store c)) \<and>
     distinct (map snd (map_store c)) \<and>
     set xs = set (map snd (map_store c)) \<and>
     list_all (\<lambda>kr. case heap c (snd kr) of None \<Rightarrow> False | Some e \<Rightarrow> key e = fst kr) (map_store c) \<and>
     list_all (\<lambda>kr. snd kr < nextRef c) (map_store c)"

definition inv :: "('k, 'v) TtlCache \<Rightarrow> bool" where
  "inv c \<longleftrightarrow> wf c (order c)"

text \<open>
  What the observers are told when the entries \<open>rs\<close> are removed in this order for one
  reason, and the part of the state that the synchronous operations on entries leave
  alone.
\<close>

definition removalObs :: "EvictReason \<Rightarrow> ('k, 'v) heap \<Rightarrow> ref list \<Rightarrow> ('k, 'v) obs list" where
  "removalObs reason h rs =
     concat (map (\<lambda>r. case h r of
                         None \<Rightarrow> []
                       | Some e \<Rightarrow> [OnEvict (key e) (val e) reason, Emit Evict (key e) (Some (val e))]) rs)"

definition same_rest :: "('k, 'v) TtlCache \<Rightarrow> ('k, 'v) TtlCache \<Rightarrow> bool" where
  "same_rest c c' \<longleftrightarrow>
     inflight c' = inflight c \<and> defaultTtlMs c' = defaultTtlMs c \<and> maxSize c' = maxSize c \<and>
     ops c' = ops c \<and> nextOp c' = nextOp c \<and> promises c' = promises c \<and> aborted c' = aborted c"

text \<open>What a capacity bound keeps of an eviction order, and what it drops.\<close>

definition kept :: "nat option \<Rightarrow> 'a list \<Rightarrow> 'a list" where
  "kept bound ys = (case bound of None \<Rightarrow> ys | Some m \<Rightarrow> take m ys)"

definition dropped :: "nat option \<Rightarrow> 'a list \<Rightarrow> 'a list" where
  "dropped bound ys = (case bound of None \<Rightarrow> [] | Some m \<Rightarrow> drop m ys)"

text \<open>The entry object a write to \<open>k\<close> goes to: the one under the key, or a new one.\<close>

definition slotOf :: "('k, 'v) TtlCache \<Rightarrow> 'k \<Rightarrow> ref" where
  "slotOf c k = (case mapGet c k of Some (r, e) \<Rightarrow> r | None \<Rightarrow> nextRef c)"

definition ttlOf :: "('k, 'v) TtlCache \<Rightarrow> int option \<Rightarrow> int" where
  "ttlOf c ttlOpt = (case ttlOpt of None \<Rightarrow> defaultTtlMs c | Some t \<Rightarrow> t)"

definition swrOf :: "int option \<Rightarrow> int" where
  "swrOf swrOpt = (case swrOpt of None \<Rightarrow> 0 | Some w \<Rightarrow> w)"

definition outcome :: "'v settled \<Rightarrow> 'v promise" where
  "outcome res = (case res of Ok v \<Rightarrow> Resolved v | Err x \<Rightarrow> Rejected (LoaderError x))"

text \<open>
  The situations of a call of \<open>getOrSet\<close>: its signal has not fired; the key has
  neither a fresh nor a stale entry; and the state the miss path continues from, the
  expired entry removed and the miss counted.
\<close>

definition notAborted :: "('k, 'v) TtlCache \<Rightarrow> GetOrSetOptions \<Rightarrow> bool" where
  "notAborted c opts = (case signal opts of None \<Rightarrow> True | Some sg \<Rightarrow> sg \<notin> set (aborted c))"

definition noLiveEntry :: "('k, 'v) TtlCache \<Rightarrow> 'k \<Rightarrow> int \<Rightarrow> bool" where
  "noLiveEntry c k now =
     (case mapGet c k of None \<Rightarrow> True | Some (r, e) \<Rightarrow> \<not> isFresh e now \<and> \<not> isStale e now)"

definition missed :: "('k, 'v) TtlCache \<Rightarrow> 'k \<Rightarrow> ('k, 'v) TtlCache" where
  "missed c k =
     countMiss (case mapGet c k of None \<Rightarrow> c | Some (r, e) \<Rightarrow> removeEntry c r Expired) k"

definition loadOp :: "'k \<Rightarrow> GetOrSetOptions \<Rightarrow> bool \<Rightarrow> 'k LoadOp" where
  "loadOp k opts d = \<lparr>op_key = k, op_ttlMs = ttlMs opts, op_swrMs = swrMs opts, op_detached = d\<rparr>"


section \<open>Example runs\<close>

text \<open>
  A cache with one entry written by a loader at time 0 with \<open>ttlMs = 1000\<close> and
  \<open>swrMs = 200\<close>: fresh before 1000, stale from 1000, expired from 1200.
\<close>

definition swrOptions :: GetOrSetOptions where
  "swrOptions = \<lparr>ttlMs = Some 1000, swrMs = Some 200, dedupe = None, signal = None\<rparr>"

definition loadedOnce :: "(string, nat) TtlCache" where
  "loadedOnce =
     the (run (newTtlCache None None)
              [(0, CallGetOrSet ''k'' swrOptions), (0, LoaderSettles 0 (Ok 7))])"

text \<open>The same cache while the loader is still running.\<close>

definition loading :: "(string, nat) TtlCache" where
  "loading = getOrSet (newTtlCache None None) ''k'' swrOptions 0"

text \<open>A cache bounded to two entries, holding \<open>a\<close> and then \<open>b\<close>.\<close>

definition twoOfTwo :: "(string, nat) TtlCache" where
  "twoOfTwo =
     the (run (newTtlCache None (Some 2)) [(0, CallSet ''a'' 1 None), (0, CallSet ''b'' 2 None)])"

text \<open>A load of \<open>k\<close> in flight, and \<open>k\<close> set by hand meanwhile.\<close>

definition setWhileLoading :: "(string, nat) TtlCache" where
  "setWhileLoading =
     the (run (newTtlCache None None)
              [(0, CallGetOrSet ''k'' swrOptions), (1, CallSet ''k'' 1 None)])"

text \<open>
  Two callers waiting on the one load of \<open>k\<close>: the first, who started it, with the
  signal 0, the second without a signal.
\<close>

definition signalOptions :: GetOrSetOptions where
  "signalOptions = \<lparr>ttlMs = None, swrMs = None, dedupe = None, signal = Some 0\<rparr>"

definition plainOptions :: GetOrSetOptions where
  "plainOptions = \<lparr>ttlMs = None, swrMs = None, dedupe = None, signal = None\<rparr>"

definition twoWaiters :: "(string, nat) TtlCache" where
  "twoWaiters =
     the (run (newTtlCache None None)
              [(0, CallGetOrSet ''k'' signalOptions), (0, CallGetOrSet ''k'' plainOptions)])"

text \<open>
  An iteration with a read in its loop body. The cache holds \<open>a\<close>, written at 0 with
  \<open>ttlMs = 10\<close>, and \<open>b\<close>, written at 0 with \<open>ttlMs = 1000\<close>. At time 20 a consumer
  takes the first pair from the iterator, calls \<open>get\<close> on \<open>a\<close>, and asks the iterator
  for the next pair.
\<close>

definition twoTtls :: "(string, nat) TtlCache" where
  "twoTtls =
     the (run (newTtlCache None None)
              [(0, CallSet ''a'' 1 (Some 10)), (0, CallSet ''b'' 2 (Some 1000))])"

definition firstNext :: "(string \<times> nat) option \<times> Generator \<times> (string, nat) TtlCache" where
  "firstNext = generatorNext twoTtls newGenerator 20"

definition readInBody :: "(string, nat) TtlCache" where
  "readInBody = snd (get (snd (snd firstNext)) ''a'' 20)"

definition secondNext :: "(string \<times> nat) option \<times> Generator \<times> (string, nat) TtlCache" where
  "secondNext = generatorNext readInBody (fst (snd firstNext)) 20"

text \<open>
  A cache bounded to two entries: \<open>a\<close>, loaded at 0 with \<open>ttlMs = 1000\<close> and
  \<open>swrMs = 200\<close>, then \<open>b\<close>, set at 0 with the default \<open>ttlMs\<close>. At 1050 the entry of
  \<open>a\<close> is stale and is the tail of the eviction list.
\<close>

definition staleTail :: "(string, nat) TtlCache" where
  "staleTail =
     the (run (newTtlCache None (Some 2))
              [(0, CallGetOrSet ''a'' swrOptions), (0, LoaderSettles 0 (Ok 1)),
               (0, CallSet ''b'' 2 None)])"


section \<open>Lemmas on the linked list\<close>

lemma seg_append: "seg f h p (xs @ ys) q \<longleftrightarrow> (\<exists>m. seg f h p xs m \<and> seg f h m ys q)"
  by (induction xs arbitrary: p) (auto split: option.splits)

lemma seg_snoc: "seg f h p (xs @ [x]) q \<longleftrightarrow> seg f h p xs (Some x) \<and> (\<exists>e. h x = Some e \<and> f e = q)"
  by (simp add: seg_append split: option.splits)

lemma seg_frame:
  "(\<And>x. x \<in> set xs \<Longrightarrow> map_option f (h' x) = map_option f (h x)) \<Longrightarrow> seg f h' p xs q = seg f h p xs q"
proof (induction xs arbitrary: p)
  case Nil
  then show ?case by simp
next
  case (Cons a xs)
  have eq: "map_option f (h' a) = map_option f (h a)" using Cons.prems by simp
  have IH: "\<And>m. seg f h' m xs q = seg f h m xs q" using Cons by simp
  show ?case
  proof (cases "h a")
    case None
    then have "h' a = None" using eq by simp
    then show ?thesis using None by simp
  next
    case (Some e)
    then obtain e' where "h' a = Some e'" "f e' = f e" using eq by (cases "h' a") auto
    then show ?thesis using Some IH by simp
  qed
qed

lemma seg_defined: "seg f h p xs q \<Longrightarrow> x \<in> set xs \<Longrightarrow> h x \<noteq> None"
  by (induction xs arbitrary: p) (auto split: option.splits)

lemma seg_start: "seg f h p xs q \<Longrightarrow> p = (if xs = [] then q else Some (hd xs))"
  by (cases xs) auto

lemma seg_unique: "seg f h p xs None \<Longrightarrow> seg f h p ys None \<Longrightarrow> xs = ys"
proof (induction xs arbitrary: p ys)
  case Nil
  then show ?case by (cases ys) auto
next
  case (Cons a xs)
  then show ?case by (cases ys) (auto split: option.splits)
qed

text \<open>Unlinking the node \<open>r\<close> from a chain: its predecessor takes over its link.\<close>

lemma seg_unlink:
  assumes chain: "seg f h p (as @ r # bs) None"
    and dist: "distinct (as @ r # bs)"
    and r: "h r = Some e"
    and keep: "\<And>x. x \<in> set as \<union> set bs \<Longrightarrow> (as = [] \<or> x \<noteq> last as) \<Longrightarrow>
                 map_option f (h' x) = map_option f (h x)"
    and relink: "as \<noteq> [] \<Longrightarrow> map_option f (h' (last as)) = Some (f e)"
  shows "seg f h' (if as = [] then f e else p) (as @ bs) None"
proof -
  from chain r have pre: "seg f h p as (Some r)" and post: "seg f h (f e) bs None"
    by (auto simp: seg_append)
  have post': "seg f h' (f e) bs None"
  proof -
    have "\<And>x. x \<in> set bs \<Longrightarrow> map_option f (h' x) = map_option f (h x)"
    proof -
      fix x assume x: "x \<in> set bs"
      have "as = [] \<or> x \<noteq> last as"
      proof (cases "as = []")
        case False
        then have "last as \<in> set as" by simp
        moreover have "x \<notin> set as" using dist x by auto
        ultimately show ?thesis by metis
      qed simp
      then show "map_option f (h' x) = map_option f (h x)" using keep x by simp
    qed
    then show ?thesis using post seg_frame[of bs f h' h] by simp
  qed
  show ?thesis
  proof (cases "as = []")
    case True
    then show ?thesis using post' by simp
  next
    case False
    then obtain as' a where as: "as = as' @ [a]" by (metis rev_exhaust)
    from pre as obtain ea where a1: "seg f h p as' (Some a)" and a2: "h a = Some ea"
      by (auto simp: seg_snoc)
    have "\<And>x. x \<in> set as' \<Longrightarrow> map_option f (h' x) = map_option f (h x)"
    proof -
      fix x assume x: "x \<in> set as'"
      then have "x \<noteq> last as" using dist as by auto
      then show "map_option f (h' x) = map_option f (h x)" using keep x as by simp
    qed
    then have b1: "seg f h' p as' (Some a)" using a1 seg_frame[of as' f h' h] by simp
    from relink False as obtain ea' where b2: "h' a = Some ea'" "f ea' = f e" by auto
    have "seg f h' p (as' @ [a]) (f e)" using b1 b2 by (simp add: seg_snoc)
    then have "seg f h' p as (f e)" using as by simp
    then have "seg f h' p (as @ bs) None" using post' seg_append[of f h' p as bs None] by blast
    then show ?thesis using False by simp
  qed
qed


lemma upd_apply: "upd h r f x = (if x = r then map_option f (h r) else h x)"
  by (simp add: upd_def split: option.splits)

lemma same_data_refl: "same_data h h"
  by (simp add: same_data_def)

lemma same_data_trans: "same_data h h1 \<Longrightarrow> same_data h1 h2 \<Longrightarrow> same_data h h2"
  by (simp add: same_data_def)

lemma same_data_upd: "(\<And>e. payload (f e) = payload e) \<Longrightarrow> same_data h (upd h r f)"
  by (simp add: same_data_def upd_apply option.map_comp comp_def)

lemma same_data_defined: "same_data h h' \<Longrightarrow> (h' x = None) = (h x = None)"
  by (metis same_data_def option.map_disc_iff)

lemma same_data_key: "same_data h h' \<Longrightarrow> h x = Some e \<Longrightarrow> \<exists>e'. h' x = Some e' \<and> payload e' = payload e"
  by (metis same_data_def map_option_eq_Some option.simps(9))

subsection \<open>remove\<close>

lemma remove_list:
  "h r = Some e \<Longrightarrow>
   snd (remove (h, l) r) = l\<lparr>head := (if prev e = None then nxt e else head l),
                              tail := (if nxt e = None then prev e else tail l)\<rparr>"
  by (simp add: remove_def split: option.splits)

lemma remove_nxt:
  "h r = Some e \<Longrightarrow> x \<noteq> r \<Longrightarrow>
   map_option nxt (fst (remove (h, l) r) x) =
     (if prev e = Some x then map_option (\<lambda>_. nxt e) (h x) else map_option nxt (h x))"
  by (simp add: remove_def upd_apply option.map_comp comp_def split: option.splits)

lemma remove_prev:
  "h r = Some e \<Longrightarrow> x \<noteq> r \<Longrightarrow>
   map_option prev (fst (remove (h, l) r) x) =
     (if nxt e = Some x then map_option (\<lambda>_. prev e) (h x) else map_option prev (h x))"
  by (simp add: remove_def upd_apply option.map_comp comp_def split: option.splits)

lemma remove_same_data: "same_data h (fst (remove (h, l) r))"
  by (simp add: remove_def same_data_def upd_apply option.map_comp comp_def payload_def[abs_def]
      split: option.splits)


lemma dll_remove:
  assumes d: "dll h l xs" and r: "r \<in> set xs"
  shows "dll (fst (remove (h, l) r)) (snd (remove (h, l) r)) (remove1 r xs)"
proof -
  let ?h = "fst (remove (h, l) r)"
  from r obtain as bs where xs: "xs = as @ r # bs" by (meson split_list)
  from d have fw: "seg nxt h (head l) (as @ r # bs) None"
    and bw: "seg prev h (tail l) (rev bs @ r # rev as) None"
    and dist: "distinct (as @ r # bs)"
    by (simp_all add: dll_def xs)
  from fw obtain e where e: "h r = Some e" by (auto simp: seg_append split: option.splits)
  from fw e have "seg nxt h (nxt e) bs None" by (auto simp: seg_append)
  then have ne: "nxt e = (if bs = [] then None else Some (hd bs))" by (rule seg_start)
  from bw e have "seg prev h (prev e) (rev as) None" by (auto simp: seg_append)
  then have "prev e = (if rev as = [] then None else Some (hd (rev as)))" by (rule seg_start)
  then have pe: "prev e = (if as = [] then None else Some (last as))" by (simp add: hd_rev)
  have distb: "distinct (rev bs @ r # rev as)" using dist by auto
  have def: "\<And>x. x \<in> set as \<union> set bs \<Longrightarrow> h x \<noteq> None"
    using seg_defined[OF fw] by auto
  have rn: "\<And>x. x \<in> set as \<union> set bs \<Longrightarrow> x \<noteq> r" using dist by auto
  have "seg nxt ?h (if as = [] then nxt e else head l) (as @ bs) None"
  proof (rule seg_unlink[OF fw dist e])
    fix x assume "x \<in> set as \<union> set bs" "as = [] \<or> x \<noteq> last as"
    then show "map_option nxt (?h x) = map_option nxt (h x)"
      using remove_nxt[of h r e x l] e rn pe by auto
  next
    assume "as \<noteq> []"
    then show "map_option nxt (?h (last as)) = Some (nxt e)"
      using remove_nxt[of h r e "last as" l] e rn[of "last as"] pe def[of "last as"] by auto
  qed
  moreover have "seg prev ?h (if rev bs = [] then prev e else tail l) (rev bs @ rev as) None"
  proof (rule seg_unlink[OF bw distb e])
    fix x assume "x \<in> set (rev bs) \<union> set (rev as)" "rev bs = [] \<or> x \<noteq> last (rev bs)"
    then show "map_option prev (?h x) = map_option prev (h x)"
      using remove_prev[of h r e x l] e rn ne by (auto simp: last_rev)
  next
    assume "rev bs \<noteq> []"
    then show "map_option prev (?h (last (rev bs))) = Some (prev e)"
      using remove_prev[of h r e "hd bs" l] e rn[of "hd bs"] ne def[of "hd bs"] by (auto simp: last_rev)
  qed
  moreover have "remove1 r xs = as @ bs" using dist xs by (simp add: remove1_append)
  moreover have "distinct (as @ bs)" using dist by auto
  ultimately show ?thesis
    using remove_list[of h r e l] e pe ne by (auto simp: dll_def)
qed

subsection \<open>addToFront\<close>

lemma addToFront_list:
  "snd (addToFront (h, l) r) = l\<lparr>head := Some r, tail := (if tail l = None then Some r else tail l)\<rparr>"
  by (simp add: addToFront_def Let_def)

lemma addToFront_self:
  "head l \<noteq> Some r \<Longrightarrow>
   fst (addToFront (h, l) r) r = map_option (\<lambda>e. e\<lparr>prev := None, nxt := head l\<rparr>) (h r)"
  by (simp add: addToFront_def Let_def upd_apply split: option.splits)

lemma addToFront_nxt:
  "x \<noteq> r \<Longrightarrow> map_option nxt (fst (addToFront (h, l) r) x) = map_option nxt (h x)"
  by (simp add: addToFront_def Let_def upd_apply option.map_comp comp_def split: option.splits)

lemma addToFront_prev:
  "x \<noteq> r \<Longrightarrow> map_option prev (fst (addToFront (h, l) r) x) =
     (if head l = Some x then map_option (\<lambda>_. Some r) (h x) else map_option prev (h x))"
  by (simp add: addToFront_def Let_def upd_apply option.map_comp comp_def split: option.splits)

lemma addToFront_same_data: "same_data h (fst (addToFront (h, l) r))"
  by (simp add: addToFront_def Let_def same_data_def upd_apply option.map_comp comp_def
      payload_def[abs_def] split: option.splits)

lemma dll_addToFront:
  assumes d: "dll h l xs" and r: "r \<notin> set xs" and a: "h r \<noteq> None"
  shows "dll (fst (addToFront (h, l) r)) (snd (addToFront (h, l) r)) (r # xs)"
proof -
  let ?h = "fst (addToFront (h, l) r)"
  from d have fw: "seg nxt h (head l) xs None" and bw: "seg prev h (tail l) (rev xs) None"
    and dist: "distinct xs"
    by (simp_all add: dll_def)
  have hd: "head l = (if xs = [] then None else Some (hd xs))" using seg_start[OF fw] .
  have tl: "tail l = (if xs = [] then None else Some (last xs))"
    using seg_start[OF bw] by (simp add: hd_rev)
  have hr: "head l \<noteq> Some r" using hd r by (cases xs) auto
  from a obtain e where e: "h r = Some e" by auto
  have self: "?h r = Some (e\<lparr>prev := None, nxt := head l\<rparr>)"
    using addToFront_self[OF hr, of h] e by simp
  have "seg nxt ?h (head l) xs None"
    using fw seg_frame[of xs nxt ?h h "head l" None] addToFront_nxt[of _ r h l] r by metis
  then have F: "seg nxt ?h (Some r) (r # xs) None" using self by simp
  have B: "seg prev ?h (tail (snd (addToFront (h, l) r))) (rev xs @ [r]) None"
  proof (cases xs)
    case Nil
    then show ?thesis using self tl by (simp add: addToFront_list)
  next
    case (Cons y ys)
    then have rv: "rev xs = rev ys @ [y]" by simp
    from bw rv obtain ey where y1: "seg prev h (tail l) (rev ys) (Some y)" and y2: "h y = Some ey"
      by (auto simp: seg_snoc)
    have "\<And>x. x \<in> set (rev ys) \<Longrightarrow> map_option prev (?h x) = map_option prev (h x)"
    proof -
      fix x assume "x \<in> set (rev ys)"
      then have "x \<noteq> r" "x \<noteq> y" using r dist Cons by auto
      then show "map_option prev (?h x) = map_option prev (h x)"
        using addToFront_prev[of x r h l] hd Cons by simp
    qed
    then have 1: "seg prev ?h (tail l) (rev ys) (Some y)"
      using y1 seg_frame[of "rev ys" prev ?h h] by simp
    have "map_option prev (?h y) = Some (Some r)"
      using addToFront_prev[of y r h l] r hd Cons y2 by auto
    then have 2: "\<exists>e'. ?h y = Some e' \<and> prev e' = Some r" by auto
    have "seg prev ?h (tail l) (rev ys @ [y]) (Some r)" using 1 2 by (simp add: seg_snoc)
    then have "seg prev ?h (tail l) ((rev ys @ [y]) @ [r]) None"
      using self by (simp only: seg_snoc) simp
    then show ?thesis using rv tl Cons by (simp add: addToFront_list)
  qed
  show ?thesis using F B r dist by (simp add: dll_def addToFront_list)
qed

section \<open>Lemmas on the map and the list together\<close>


lemma dll_head: "dll h l xs \<Longrightarrow> head l = (if xs = [] then None else Some (hd xs))"
  using seg_start[of nxt h "head l" xs None] by (simp add: dll_def)

lemma dll_tail: "dll h l xs \<Longrightarrow> tail l = (if xs = [] then None else Some (last xs))"
  using seg_start[of prev h "tail l" "rev xs" None] by (simp add: dll_def hd_rev)

lemma dll_defined: "dll h l xs \<Longrightarrow> x \<in> set xs \<Longrightarrow> h x \<noteq> None"
  using seg_defined[of nxt h "head l" xs None x] by (simp add: dll_def)

lemma dll_unique: "dll h l xs \<Longrightarrow> dll h l ys \<Longrightarrow> xs = ys"
  using seg_unique[of nxt h "head l" xs ys] by (simp add: dll_def)

lemma moveToFront_same_data: "same_data h (fst (moveToFront (h, l) r))"
  using same_data_trans[OF remove_same_data[of h l r]
      addToFront_same_data[of "fst (remove (h, l) r)" "snd (remove (h, l) r)" r]]
  by (simp add: moveToFront_def same_data_refl)

lemma dll_moveToFront:
  assumes d: "dll h l xs" and r: "r \<in> set xs"
  shows "dll (fst (moveToFront (h, l) r)) (snd (moveToFront (h, l) r)) (r # remove1 r xs)"
proof (cases "head l = Some r")
  case True
  then have "xs = r # remove1 r xs" using dll_head[OF d] r by (cases xs) auto
  then show ?thesis using True d by (simp add: moveToFront_def)
next
  case False
  let ?hl = "remove (h, l) r"
  have 1: "dll (fst ?hl) (snd ?hl) (remove1 r xs)" using dll_remove[OF d r] .
  have 2: "r \<notin> set (remove1 r xs)" using d by (simp add: dll_def)
  have 3: "fst ?hl r \<noteq> None"
    using same_data_defined[OF remove_same_data[of h l r], of r] dll_defined[OF d r] by simp
  show ?thesis using dll_addToFront[OF 1 2 3] False by (simp add: moveToFront_def)
qed

lemma moveToFront_head: "head (snd (moveToFront (h, l) r)) = Some r"
  using addToFront_list[of "fst (remove (h, l) r)" "snd (remove (h, l) r)" r]
  by (simp add: moveToFront_def)

lemma walk_seg: "seg nxt h p xs None \<Longrightarrow> length xs \<le> n \<Longrightarrow> walk h p n = xs"
proof (induction n arbitrary: p xs)
  case 0
  then show ?case by simp
next
  case (Suc n)
  then show ?case by (cases xs) (auto split: option.splits)
qed

lemma wf_length: "wf c xs \<Longrightarrow> length xs = length (map_store c)"
proof -
  assume w: "wf c xs"
  then have "distinct xs" by (simp add: wf_def dll_def)
  then have "length xs = card (set xs)" by (simp add: distinct_card)
  also have "\<dots> = card (set (map snd (map_store c)))" using w by (simp add: wf_def)
  also have "\<dots> = length (map snd (map_store c))" using w distinct_card[of "map snd (map_store c)"]
    by (simp add: wf_def)
  finally show ?thesis by simp
qed

lemma wf_order: "wf c xs \<Longrightarrow> order c = xs"
  using walk_seg[of "heap c" "head (list c)" xs "length (map_store c)"] wf_length[of c xs]
  by (simp add: order_def wf_def dll_def)

lemma wf_inv: "wf c xs \<Longrightarrow> inv c"
  by (simp add: inv_def wf_order)

lemma inv_wf: "inv c \<Longrightarrow> wf c (order c)"
  by (simp add: inv_def)

lemma mapDelete_by_ref:
  "distinct (map fst m) \<Longrightarrow> distinct (map snd m) \<Longrightarrow> (k, r) \<in> set m \<Longrightarrow>
   mapDelete m k = filter (\<lambda>kr. snd kr \<noteq> r) m"
proof (induction m)
  case Nil
  then show ?case by simp
next
  case (Cons a m)
  show ?case
  proof (cases "a = (k, r)")
    case True
    have "\<And>kr. kr \<in> set m \<Longrightarrow> fst kr \<noteq> k \<and> snd kr \<noteq> r"
      using Cons.prems True by (auto simp: image_iff)
    then have "filter (\<lambda>kr. fst kr \<noteq> k) m = m" "filter (\<lambda>kr. snd kr \<noteq> r) m = m"
      by (simp_all add: filter_id_conv)
    then show ?thesis using True by (simp add: mapDelete_def)
  next
    case False
    then have in_m: "(k, r) \<in> set m" using Cons.prems by auto
    then have "fst a \<noteq> k" "snd a \<noteq> r" using Cons.prems by (auto simp: image_iff)
    moreover have "mapDelete m k = filter (\<lambda>kr. snd kr \<noteq> r) m"
      using Cons.IH Cons.prems in_m by simp
    ultimately show ?thesis by (simp add: mapDelete_def)
  qed
qed

lemma wf_lookup:
  assumes "wf c xs" "(k, r) \<in> set (map_store c)"
  shows "\<exists>e. heap c r = Some e \<and> key e = k \<and> mapGet c k = Some (r, e) \<and> r \<in> set xs \<and> r < nextRef c"
proof -
  from assms have "map_of (map_store c) k = Some r" by (simp add: wf_def)
  moreover from assms obtain e where "heap c r = Some e" "key e = k"
    by (auto simp: wf_def list_all_iff split: option.splits)
  moreover have "snd (k, r) \<in> snd ` set (map_store c)" using assms(2) by (rule imageI)
  then have "r \<in> set xs" using assms(1) by (simp add: wf_def)
  moreover have "r < nextRef c" using assms by (auto simp: wf_def list_all_iff)
  ultimately show ?thesis by (simp add: mapGet_def)
qed

lemma mapGet_in_store:
  "mapGet c k = Some (r, e) \<Longrightarrow> (k, r) \<in> set (map_store c) \<and> heap c r = Some e"
  by (auto simp: mapGet_def split: option.splits dest: map_of_SomeD)

lemma mapGet_None: "wf c xs \<Longrightarrow> mapGet c k = None \<Longrightarrow> k \<notin> fst ` set (map_store c)"
proof
  assume w: "wf c xs" and n: "mapGet c k = None" and "k \<in> fst ` set (map_store c)"
  then obtain r where "(k, r) \<in> set (map_store c)" by auto
  from wf_lookup[OF w this] n show False by simp
qed

subsection \<open>removeEntry\<close>


lemma removeEntry_Some:
  "heap c r = Some e \<Longrightarrow>
   removeEntry c r reason =
     c\<lparr>heap := fst (remove (heap c, list c) r),
       list := snd (remove (heap c, list c) r),
       map_store := mapDelete (map_store c) (key e),
       stats := (if reason = Expired \<or> reason = Evicted
                 then (stats c)\<lparr>evictions := evictions (stats c) + 1\<rparr> else stats c),
       observed := observed c @ [OnEvict (key e) (val e) reason, Emit Evict (key e) (Some (val e))]\<rparr>"
  by (simp add: removeEntry_def Let_def emit_def case_prod_beta)

lemma removeEntry_None: "heap c r = None \<Longrightarrow> removeEntry c r reason = c"
  by (simp add: removeEntry_def)

lemma removeEntry_fields [simp]:
  "nextRef (removeEntry c r reason) = nextRef c"
  "inflight (removeEntry c r reason) = inflight c"
  "defaultTtlMs (removeEntry c r reason) = defaultTtlMs c"
  "maxSize (removeEntry c r reason) = maxSize c"
  "ops (removeEntry c r reason) = ops c"
  "nextOp (removeEntry c r reason) = nextOp c"
  "promises (removeEntry c r reason) = promises c"
  "aborted (removeEntry c r reason) = aborted c"
  by (cases "heap c r"; simp add: removeEntry_Some removeEntry_None)+

lemma removeEntry_same_data: "same_data (heap c) (heap (removeEntry c r reason))"
  by (cases "heap c r") (simp_all add: removeEntry_Some removeEntry_None same_data_refl remove_same_data)

lemma filter_snd_set:
  "set (map snd (filter (\<lambda>kr. snd kr \<noteq> r) m)) = set (map snd m) - {r}"
  by auto

lemma wf_removeEntry:
  assumes w: "wf c xs" and m: "(k, r) \<in> set (map_store c)"
  shows "wf (removeEntry c r reason) (remove1 r xs)"
    and "map_store (removeEntry c r reason) = filter (\<lambda>kr. snd kr \<noteq> r) (map_store c)"
proof -
  from wf_lookup[OF w m] obtain e where e: "heap c r = Some e" "key e = k" "r \<in> set xs" by auto
  let ?c = "removeEntry c r reason"
  have st: "map_store ?c = filter (\<lambda>kr. snd kr \<noteq> r) (map_store c)"
    using mapDelete_by_ref[of "map_store c" k r] w m e by (simp add: removeEntry_Some wf_def)
  show "map_store ?c = filter (\<lambda>kr. snd kr \<noteq> r) (map_store c)" by (rule st)
  have d: "dll (heap ?c) (list ?c) (remove1 r xs)"
    using dll_remove[of "heap c" "list c" xs r] w e by (simp add: removeEntry_Some wf_def)
  have dist: "distinct xs" using w by (simp add: wf_def dll_def)
  have s: "set (remove1 r xs) = set (map snd (map_store ?c))"
    using w dist by (simp only: st filter_snd_set set_remove1_eq) (simp add: wf_def)
  have k: "list_all (\<lambda>kr. case heap ?c (snd kr) of None \<Rightarrow> False | Some e \<Rightarrow> key e = fst kr) (map_store ?c)"
  proof -
    have "\<And>kr. kr \<in> set (map_store c) \<Longrightarrow>
            (case heap ?c (snd kr) of None \<Rightarrow> False | Some e \<Rightarrow> key e = fst kr)"
    proof -
      fix kr assume "kr \<in> set (map_store c)"
      then obtain e0 where "heap c (snd kr) = Some e0" "key e0 = fst kr"
        using w by (auto simp: wf_def list_all_iff split: option.splits)
      then obtain e1 where "heap ?c (snd kr) = Some e1" "payload e1 = payload e0"
        using same_data_key[OF removeEntry_same_data[of c r reason]] by blast
      then show "case heap ?c (snd kr) of None \<Rightarrow> False | Some e \<Rightarrow> key e = fst kr"
        using \<open>key e0 = fst kr\<close> by (simp add: payload_def)
    qed
    then show ?thesis by (simp add: st list_all_iff)
  qed
  have b: "list_all (\<lambda>kr. snd kr < nextRef ?c) (map_store ?c)"
    using w by (simp add: st wf_def list_all_iff)
  have "distinct (map fst (map_store ?c))" "distinct (map snd (map_store ?c))"
    using w by (simp_all add: st wf_def distinct_map_filter)
  then show "wf ?c (remove1 r xs)" using d s k b by (simp add: wf_def)
qed

subsection \<open>enforceMaxSize\<close>


lemma same_rest_refl: "same_rest c c"
  by (simp add: same_rest_def)

lemma same_rest_trans: "same_rest c c1 \<Longrightarrow> same_rest c1 c2 \<Longrightarrow> same_rest c c2"
  by (simp add: same_rest_def)

lemma same_rest_removeEntry: "same_rest c (removeEntry c r reason)"
  by (simp add: same_rest_def)

lemma removalObs_same_data: "same_data h h' \<Longrightarrow> removalObs reason h' rs = removalObs reason h rs"
proof -
  assume s: "same_data h h'"
  have "\<And>r. (case h' r of None \<Rightarrow> [] | Some e \<Rightarrow> [OnEvict (key e) (val e) reason, Emit Evict (key e) (Some (val e))])
           = (case h r of None \<Rightarrow> [] | Some e \<Rightarrow> [OnEvict (key e) (val e) reason, Emit Evict (key e) (Some (val e))])"
  proof -
    fix r
    show "(case h' r of None \<Rightarrow> [] | Some e \<Rightarrow> [OnEvict (key e) (val e) reason, Emit Evict (key e) (Some (val e))])
           = (case h r of None \<Rightarrow> [] | Some e \<Rightarrow> [OnEvict (key e) (val e) reason, Emit Evict (key e) (Some (val e))])"
    proof (cases "h r")
      case None
      then show ?thesis using same_data_defined[OF s, of r] by simp
    next
      case (Some e)
      then obtain e' where "h' r = Some e'" "payload e' = payload e" using same_data_key[OF s] by blast
      then show ?thesis using Some by (simp add: payload_def)
    qed
  qed
  then show ?thesis by (simp add: removalObs_def)
qed

lemma removeEntry_observed:
  "observed (removeEntry c r reason) = observed c @ removalObs reason (heap c) [r]"
  by (cases "heap c r") (simp_all add: removeEntry_Some removeEntry_None removalObs_def)

lemma removeEntry_evictions:
  "heap c r \<noteq> None \<Longrightarrow>
   stats (removeEntry c r reason) =
     (if reason = Expired \<or> reason = Evicted
      then (stats c)\<lparr>evictions := evictions (stats c) + 1\<rparr> else stats c)"
  by (auto simp: removeEntry_Some)

lemma remove1_last:
  assumes "distinct ys" "ys \<noteq> []"
  shows "remove1 (last ys) ys = butlast ys"
proof -
  have eq: "ys = butlast ys @ [last ys]" using assms(2) by simp
  then have "distinct (butlast ys @ [last ys])" using assms(1) by simp
  then have "last ys \<notin> set (butlast ys)" by simp
  then have "remove1 (last ys) (butlast ys @ [last ys]) = butlast ys"
    by (simp add: remove1_append)
  then show ?thesis using eq by simp
qed

lemma enforce_step:
  assumes "length (map_store c) > m" "tail (list c) = Some r" "heap c r \<noteq> None"
  shows "enforceLoop m c = enforceLoop m (removeEntry c r Evicted)"
proof -
  from assms obtain e where e: "heap c r = Some e" by auto
  obtain e' where e': "fst (remove (heap c, list c) r) r = Some e'" "payload e' = payload e"
    using same_data_key[OF remove_same_data[of "heap c" "list c" r] e] by blast
  have "removeTail (heap c, list c) = (Some r, remove (heap c, list c) r)"
    using assms by (simp add: removeTail_def)
  then show ?thesis
    using assms e e'
    by (subst enforceLoop.simps)
       (simp add: removeEntry_Some emit_def Let_def case_prod_beta payload_def)
qed

lemma enforce_done: "length (map_store c) \<le> m \<Longrightarrow> enforceLoop m c = Some c"
  by (subst enforceLoop.simps) simp

lemma enforceLoop_wf:
  "wf c ys \<Longrightarrow>
   \<exists>c'. enforceLoop m c = Some c' \<and> wf c' (take m ys) \<and>
        map_store c' = filter (\<lambda>kr. snd kr \<in> set (take m ys)) (map_store c) \<and>
        same_data (heap c) (heap c') \<and> same_rest c c' \<and> nextRef c' = nextRef c \<and>
        observed c' = observed c @ removalObs Evicted (heap c) (rev (drop m ys)) \<and>
        stats c' = (stats c)\<lparr>evictions := evictions (stats c) + length (drop m ys)\<rparr>"
proof (induction "length ys - m" arbitrary: c ys)
  case 0
  then have le: "length ys \<le> m" by simp
  then have "length (map_store c) \<le> m" using wf_length[OF "0.prems"] by simp
  then have "enforceLoop m c = Some c" by (rule enforce_done)
  moreover have "filter (\<lambda>kr. snd kr \<in> set ys) (map_store c) = map_store c"
    using "0.prems" by (auto simp: wf_def filter_id_conv)
  ultimately show ?case using le "0.prems"
    by (simp add: same_data_refl same_rest_refl removalObs_def)
next
  case (Suc n)
  then have gt: "m < length ys" by simp
  then have ne: "ys \<noteq> []" by auto
  let ?r = "last ys"
  have d: "dll (heap c) (list c) ys" and dist: "distinct ys" using Suc.prems by (simp_all add: wf_def dll_def)
  have tl: "tail (list c) = Some ?r" using dll_tail[OF d] ne by simp
  have rin: "?r \<in> set ys" using ne by simp
  then obtain k where k: "(k, ?r) \<in> set (map_store c)" using Suc.prems by (auto simp: wf_def)
  have def: "heap c ?r \<noteq> None" using dll_defined[OF d rin] .
  let ?c = "removeEntry c ?r Evicted"
  have step: "enforceLoop m c = enforceLoop m ?c"
    using enforce_step[of m c ?r] gt wf_length[OF Suc.prems] tl def by simp
  have r1: "remove1 ?r ys = butlast ys" using remove1_last[OF dist ne] .
  have w1: "wf ?c (butlast ys)" using wf_removeEntry(1)[OF Suc.prems k, of Evicted] r1 by simp
  have st1: "map_store ?c = filter (\<lambda>kr. snd kr \<noteq> ?r) (map_store c)"
    using wf_removeEntry(2)[OF Suc.prems k] .
  have "n = length (butlast ys) - m" using Suc.hyps(2) by simp
  from Suc.hyps(1)[OF this w1] obtain c' where c':
    "enforceLoop m ?c = Some c'" "wf c' (take m (butlast ys))"
    "map_store c' = filter (\<lambda>kr. snd kr \<in> set (take m (butlast ys))) (map_store ?c)"
    "same_data (heap ?c) (heap c')" "same_rest ?c c'" "nextRef c' = nextRef ?c"
    "observed c' = observed ?c @ removalObs Evicted (heap ?c) (rev (drop m (butlast ys)))"
    "stats c' = (stats ?c)\<lparr>evictions := evictions (stats ?c) + length (drop m (butlast ys))\<rparr>"
    by blast
  have tk: "take m (butlast ys) = take m ys" using gt by (simp add: take_butlast)
  have notin: "?r \<notin> set (take m ys)"
  proof -
    have "ys = take m ys @ drop m ys" by simp
    moreover have "?r \<in> set (drop m ys)" using gt ne by (metis drop_eq_Nil last_drop last_in_set not_le)
    ultimately show ?thesis using dist by (metis distinct_append disjoint_iff)
  qed
  have dr: "drop m ys = drop m (butlast ys) @ [?r]"
    using gt ne by (metis append_butlast_last_id butlast_drop drop_eq_Nil last_drop not_le)
  have 1: "map_store c' = filter (\<lambda>kr. snd kr \<in> set (take m ys)) (map_store c)"
  proof -
    have "filter (\<lambda>kr. snd kr \<in> set (take m ys)) (filter (\<lambda>kr. snd kr \<noteq> ?r) (map_store c))
          = filter (\<lambda>kr. snd kr \<in> set (take m ys)) (map_store c)"
      using notin by (auto intro: filter_cong)
    then show ?thesis using c'(3) st1 tk by simp
  qed
  have 2: "same_data (heap c) (heap c')"
    using same_data_trans[OF removeEntry_same_data c'(4)] .
  have 3: "observed c' = observed c @ removalObs Evicted (heap c) (rev (drop m ys))"
    using c'(7) removalObs_same_data[OF removeEntry_same_data[of c ?r Evicted]]
    by (simp add: removeEntry_observed dr removalObs_def)
  have 4: "stats c' = (stats c)\<lparr>evictions := evictions (stats c) + length (drop m ys)\<rparr>"
    using c'(8) removeEntry_evictions[OF def, of Evicted] dr by simp
  have 5: "same_rest c c'" using same_rest_trans[OF same_rest_removeEntry c'(5)] .
  show ?case using step c'(1,2,6) tk 1 2 3 4 5 by simp
qed

subsection \<open>Writing an entry\<close>


lemma mapSet_new: "k \<notin> fst ` set m \<Longrightarrow> mapSet m k r = m @ [(k, r)]"
  by (induction m) auto

lemma dll_upd_payload:
  assumes "\<And>e. prev (f e) = prev e \<and> nxt (f e) = nxt e"
  shows "dll (upd h r f) l xs = dll h l xs"
proof -
  have "\<And>x. map_option nxt (upd h r f x) = map_option nxt (h x)"
    using assms by (simp add: upd_apply option.map_comp comp_def)
  then have 1: "seg nxt (upd h r f) (head l) xs None = seg nxt h (head l) xs None"
    using seg_frame[of xs nxt "upd h r f" h] by simp
  have "\<And>x. map_option prev (upd h r f x) = map_option prev (h x)"
    using assms by (simp add: upd_apply option.map_comp comp_def)
  then have 2: "seg prev (upd h r f) (tail l) (rev xs) None = seg prev h (tail l) (rev xs) None"
    using seg_frame[of "rev xs" prev "upd h r f" h] by simp
  show ?thesis using 1 2 by (simp add: dll_def)
qed

lemma seg_alloc: "r \<notin> set xs \<Longrightarrow> seg f (h(r \<mapsto> e)) p xs q = seg f h p xs q"
proof (rule seg_frame)
  fix x assume "r \<notin> set xs" "x \<in> set xs"
  then have "x \<noteq> r" by auto
  then show "map_option f ((h(r \<mapsto> e)) x) = map_option f (h x)" by simp
qed

lemma dll_alloc: "dll h l xs \<Longrightarrow> r \<notin> set xs \<Longrightarrow> dll (h(r \<mapsto> e)) l xs"
  by (simp add: dll_def seg_alloc)

lemma keys_same_data:
  assumes "same_data h h'"
    and "list_all (\<lambda>kr. case h (snd kr) of None \<Rightarrow> False | Some e \<Rightarrow> key e = fst kr) m"
  shows "list_all (\<lambda>kr. case h' (snd kr) of None \<Rightarrow> False | Some e \<Rightarrow> key e = fst kr) m"
proof -
  have "\<And>kr. kr \<in> set m \<Longrightarrow> (case h' (snd kr) of None \<Rightarrow> False | Some e \<Rightarrow> key e = fst kr)"
  proof -
    fix kr assume "kr \<in> set m"
    then obtain e0 where e0: "h (snd kr) = Some e0" "key e0 = fst kr"
      using assms(2) by (auto simp: list_all_iff split: option.splits)
    then obtain e1 where "h' (snd kr) = Some e1" "payload e1 = payload e0"
      using same_data_key[OF assms(1)] by blast
    then show "case h' (snd kr) of None \<Rightarrow> False | Some e \<Rightarrow> key e = fst kr"
      using e0 by (simp add: payload_def)
  qed
  then show ?thesis by (simp add: list_all_iff)
qed

text \<open>Relinking the list, the map untouched.\<close>

lemma wf_relink:
  assumes w: "wf c xs"
    and d: "dll (heap c') (list c') xs'"
    and s: "same_data (heap c) (heap c')"
    and m: "map_store c' = map_store c" "set xs' = set xs" "nextRef c' = nextRef c"
  shows "wf c' xs'"
  using w d m keys_same_data[OF s, of "map_store c"] by (simp add: wf_def)

lemma writeEntry_existing:
  assumes w: "wf c xs" and g: "mapGet c k = Some (r, e0)"
  shows "\<exists>c' e'. writeEntry c k v e s = Some c' \<and> wf c' (r # remove1 r xs) \<and>
           map_store c' = map_store c \<and>
           heap c' r = Some e' \<and> payload e' = (k, v, e, s) \<and>
           (\<forall>x. x \<noteq> r \<longrightarrow> map_option payload (heap c' x) = map_option payload (heap c x)) \<and>
           same_rest c c' \<and> nextRef c' = nextRef c \<and>
           observed c' = observed c @ [Emit SetEv k (Some v)] \<and> stats c' = stats c \<and>
           head (list c') = Some r"
proof -
  let ?f = "\<lambda>x. x\<lparr>val := v, expiresAt := e, staleUntil := s\<rparr>"
  let ?h1 = "upd (heap c) r ?f"
  let ?hl = "moveToFront (?h1, list c) r"
  let ?c = "emit (c\<lparr>heap := fst ?hl, list := snd ?hl\<rparr>) (Emit SetEv k (Some v))"
  from mapGet_in_store[OF g] have kr: "(k, r) \<in> set (map_store c)" and hr: "heap c r = Some e0" by simp_all
  from wf_lookup[OF w kr] hr have ke: "key e0 = k" and rin: "r \<in> set xs" by auto
  have eq: "writeEntry c k v e s = Some ?c"
    using g by (simp add: writeEntry_def Let_def case_prod_beta)
  have d0: "dll (heap c) (list c) xs" using w by (simp add: wf_def)
  have d1: "dll ?h1 (list c) xs" using d0 by (simp add: dll_upd_payload)
  have d2: "dll (fst ?hl) (snd ?hl) (r # remove1 r xs)" using dll_moveToFront[OF d1 rin] .
  have sd: "same_data ?h1 (fst ?hl)" by (rule moveToFront_same_data)
  have h1r: "?h1 r = Some (?f e0)" using hr by (simp add: upd_apply)
  then obtain e' where e': "fst ?hl r = Some e'" "payload e' = payload (?f e0)"
    using same_data_key[OF sd] by blast
  have others: "\<And>x. x \<noteq> r \<Longrightarrow> map_option payload (fst ?hl x) = map_option payload (heap c x)"
    using sd by (simp add: same_data_def upd_apply)
  have keys: "list_all (\<lambda>kr. case fst ?hl (snd kr) of None \<Rightarrow> False | Some e \<Rightarrow> key e = fst kr) (map_store c)"
  proof -
    have "list_all (\<lambda>kr. case ?h1 (snd kr) of None \<Rightarrow> False | Some e \<Rightarrow> key e = fst kr) (map_store c)"
      using w by (auto simp: wf_def list_all_iff upd_apply split: option.splits)
    then show ?thesis using keys_same_data[OF sd] by simp
  qed
  have "wf ?c (r # remove1 r xs)"
    using w d2 keys rin by (auto simp: wf_def emit_def dll_def)
  moreover have "payload e' = (k, v, e, s)" using e'(2) ke by (simp add: payload_def)
  moreover have "head (snd ?hl) = Some r" by (rule moveToFront_head)
  ultimately show ?thesis using eq e'(1) others
    by (simp add: emit_def same_rest_def)
qed


lemma wf_insert:
  fixes c :: "('k, 'v) TtlCache" and k :: 'k and v :: 'v and e s :: int
  assumes w: "wf c xs" and g: "mapGet c k = None"
  defines "r \<equiv> nextRef c"
  defines "hl \<equiv> addToFront ((heap c)(r \<mapsto> newCacheEntry k v e s), list c) r"
  defines "c1 \<equiv> c\<lparr>heap := fst hl, nextRef := r + 1, map_store := mapSet (map_store c) k r, list := snd hl\<rparr>"
  shows "wf c1 (r # xs)"
    and "map_store c1 = map_store c @ [(k, r)]"
    and "\<exists>e'. heap c1 r = Some e' \<and> payload e' = (k, v, e, s)"
    and "\<forall>x. x \<noteq> r \<longrightarrow> map_option payload (heap c1 x) = map_option payload (heap c x)"
proof -
  let ?h1 = "(heap c)(r \<mapsto> newCacheEntry k v e s)"
  have knew: "k \<notin> fst ` set (map_store c)" using mapGet_None[OF w g] .
  have bound: "\<And>kr. kr \<in> set (map_store c) \<Longrightarrow> snd kr < r"
    using w by (simp add: wf_def list_all_iff r_def)
  have rnew: "r \<notin> set (map snd (map_store c))" using bound by auto
  then have rxs: "r \<notin> set xs" using w by (simp add: wf_def)
  show st: "map_store c1 = map_store c @ [(k, r)]" using knew by (simp add: c1_def mapSet_new)
  have d0: "dll (heap c) (list c) xs" using w by (simp add: wf_def)
  have d1: "dll ?h1 (list c) xs" using dll_alloc[OF d0 rxs] .
  have d2: "dll (fst hl) (snd hl) (r # xs)"
    unfolding hl_def using dll_addToFront[OF d1 rxs] by simp
  have sd: "same_data ?h1 (fst hl)" unfolding hl_def by (rule addToFront_same_data)
  obtain e' where e': "fst hl r = Some e'" "payload e' = payload (newCacheEntry k v e s)"
    using same_data_key[OF sd, of r] by auto
  then show "\<exists>e'. heap c1 r = Some e' \<and> payload e' = (k, v, e, s)"
    by (simp add: c1_def payload_def newCacheEntry_def)
  show others: "\<forall>x. x \<noteq> r \<longrightarrow> map_option payload (heap c1 x) = map_option payload (heap c x)"
    using sd by (simp add: same_data_def c1_def)
  have keys0: "list_all (\<lambda>kr. case ?h1 (snd kr) of None \<Rightarrow> False | Some e \<Rightarrow> key e = fst kr) (map_store c @ [(k, r)])"
    using w bound by (auto simp: wf_def list_all_iff newCacheEntry_def)
  have keys: "list_all (\<lambda>kr. case fst hl (snd kr) of None \<Rightarrow> False | Some e \<Rightarrow> key e = fst kr) (map_store c @ [(k, r)])"
    using keys_same_data[OF sd keys0] .
  have b: "list_all (\<lambda>kr. snd kr < r + 1) (map_store c @ [(k, r)])"
    using bound by (auto simp: list_all_iff less_Suc_eq)
  show "wf c1 (r # xs)"
    using w d2 keys b knew rnew st by (simp add: wf_def c1_def)
qed

lemma writeEntry_new:
  assumes w: "wf c xs" and g: "mapGet c k = None"
  shows "\<exists>c' e'. writeEntry c k v e s = Some c' \<and>
           wf c' (kept (maxSize c) (nextRef c # xs)) \<and>
           map_store c' = filter (\<lambda>kr. snd kr \<in> set (kept (maxSize c) (nextRef c # xs)))
                                 (map_store c @ [(k, nextRef c)]) \<and>
           heap c' (nextRef c) = Some e' \<and> payload e' = (k, v, e, s) \<and>
           (\<forall>x. x \<noteq> nextRef c \<longrightarrow> map_option payload (heap c' x) = map_option payload (heap c x)) \<and>
           same_rest c c' \<and> nextRef c' = nextRef c + 1 \<and>
           observed c' = observed c
              @ removalObs Evicted (heap c') (rev (dropped (maxSize c) (nextRef c # xs)))
              @ [Emit SetEv k (Some v)] \<and>
           stats c' = (stats c)\<lparr>evictions := evictions (stats c)
                                   + length (dropped (maxSize c) (nextRef c # xs))\<rparr>"
proof -
  let ?r = "nextRef c"
  let ?hl = "addToFront ((heap c)(?r \<mapsto> newCacheEntry k v e s), list c) ?r"
  let ?c1 = "c\<lparr>heap := fst ?hl, nextRef := ?r + 1, map_store := mapSet (map_store c) k ?r, list := snd ?hl\<rparr>"
  note ins = wf_insert[OF w g, of v e s]
  have eq: "writeEntry c k v e s =
              (case enforceMaxSize ?c1 of None \<Rightarrow> None | Some c' \<Rightarrow> Some (emit c' (Emit SetEv k (Some v))))"
    using g by (simp add: writeEntry_def Let_def case_prod_beta)
  from ins(3) obtain e1 where e1: "heap ?c1 ?r = Some e1" "payload e1 = (k, v, e, s)" by blast
  have rest1: "same_rest c ?c1" by (simp add: same_rest_def)
  have "\<exists>c2. enforceMaxSize ?c1 = Some c2 \<and> wf c2 (kept (maxSize c) (?r # xs)) \<and>
          map_store c2 = filter (\<lambda>kr. snd kr \<in> set (kept (maxSize c) (?r # xs))) (map_store ?c1) \<and>
          same_data (heap ?c1) (heap c2) \<and> same_rest ?c1 c2 \<and> nextRef c2 = nextRef ?c1 \<and>
          observed c2 = observed ?c1 @ removalObs Evicted (heap ?c1) (rev (dropped (maxSize c) (?r # xs))) \<and>
          stats c2 = (stats ?c1)\<lparr>evictions := evictions (stats ?c1) + length (dropped (maxSize c) (?r # xs))\<rparr>"
  proof (cases "maxSize c")
    case None
    have "filter (\<lambda>kr. snd kr \<in> set (?r # xs)) (map_store ?c1) = map_store ?c1"
      using ins(1) by (auto simp: wf_def filter_id_conv)
    then show ?thesis using None ins(1)
      by (simp add: enforceMaxSize_def kept_def dropped_def same_data_refl same_rest_refl removalObs_def)
  next
    case (Some m)
    from enforceLoop_wf[OF ins(1), of m] show ?thesis using Some
      by (simp add: enforceMaxSize_def kept_def dropped_def)
  qed
  then obtain c2 where c2: "enforceMaxSize ?c1 = Some c2" "wf c2 (kept (maxSize c) (?r # xs))"
          "map_store c2 = filter (\<lambda>kr. snd kr \<in> set (kept (maxSize c) (?r # xs))) (map_store ?c1)"
          "same_data (heap ?c1) (heap c2)" "same_rest ?c1 c2" "nextRef c2 = nextRef ?c1"
          "observed c2 = observed ?c1 @ removalObs Evicted (heap ?c1) (rev (dropped (maxSize c) (?r # xs)))"
          "stats c2 = (stats ?c1)\<lparr>evictions := evictions (stats ?c1) + length (dropped (maxSize c) (?r # xs))\<rparr>"
    by blast
  let ?c' = "emit c2 (Emit SetEv k (Some v))"
  have 1: "writeEntry c k v e s = Some ?c'" using eq c2(1) by simp
  have 2: "wf ?c' (kept (maxSize c) (?r # xs))" using c2(2) by (simp add: wf_def emit_def)
  have 3: "map_store ?c' = filter (\<lambda>kr. snd kr \<in> set (kept (maxSize c) (?r # xs))) (map_store c @ [(k, ?r)])"
    using c2(3) ins(2) by (simp add: emit_def)
  obtain e' where e': "heap c2 ?r = Some e'" "payload e' = payload e1"
    using same_data_key[OF c2(4) e1(1)] by blast
  have 4: "heap ?c' ?r = Some e'" "payload e' = (k, v, e, s)" using e' e1(2) by (simp_all add: emit_def)
  have 5: "\<forall>x. x \<noteq> ?r \<longrightarrow> map_option payload (heap ?c' x) = map_option payload (heap c x)"
    using c2(4) ins(4) by (simp add: same_data_def emit_def)
  have 6: "same_rest c ?c'" using same_rest_trans[OF rest1 c2(5)] by (simp add: same_rest_def emit_def)
  have 7: "observed ?c' = observed c
              @ removalObs Evicted (heap ?c') (rev (dropped (maxSize c) (?r # xs)))
              @ [Emit SetEv k (Some v)]"
    using c2(7) removalObs_same_data[OF c2(4), of Evicted] by (simp add: emit_def)
  have 8: "stats ?c' = (stats c)\<lparr>evictions := evictions (stats c) + length (dropped (maxSize c) (?r # xs))\<rparr>"
    using c2(8) by (simp add: emit_def)
  have 9: "nextRef ?c' = ?r + 1" using c2(6) by (simp add: emit_def)
  show ?thesis using 1 2 3 4 5 6 7 8 9 by blast
qed

subsection \<open>Hits, misses and lookups\<close>


lemma wf_emit: "wf (emit c x) xs = wf c xs"
  by (simp add: wf_def emit_def)

lemma wf_countMiss: "wf (countMiss c k) xs = wf c xs"
  by (simp add: wf_def countMiss_def emit_def)

lemma countMiss_fields [simp]:
  "heap (countMiss c k) = heap c" "list (countMiss c k) = list c"
  "map_store (countMiss c k) = map_store c" "nextRef (countMiss c k) = nextRef c"
  "inflight (countMiss c k) = inflight c" "maxSize (countMiss c k) = maxSize c"
  "defaultTtlMs (countMiss c k) = defaultTtlMs c"
  "ops (countMiss c k) = ops c" "nextOp (countMiss c k) = nextOp c"
  "promises (countMiss c k) = promises c" "aborted (countMiss c k) = aborted c"
  "observed (countMiss c k) = observed c @ [Emit Miss k None]"
  "stats (countMiss c k) = (stats c)\<lparr>misses := misses (stats c) + 1\<rparr>"
  by (simp_all add: countMiss_def emit_def)

lemma mapGet_countMiss [simp]: "mapGet (countMiss c k') k = mapGet c k"
  by (simp add: mapGet_def split: option.splits)

lemma order_countMiss [simp]: "order (countMiss c k) = order c"
  by (simp add: order_def)

lemma countHit_fields [simp]:
  "map_store (countHit c r e k) = map_store c" "nextRef (countHit c r e k) = nextRef c"
  "inflight (countHit c r e k) = inflight c" "maxSize (countHit c r e k) = maxSize c"
  "defaultTtlMs (countHit c r e k) = defaultTtlMs c"
  "ops (countHit c r e k) = ops c" "nextOp (countHit c r e k) = nextOp c"
  "promises (countHit c r e k) = promises c" "aborted (countHit c r e k) = aborted c"
  "observed (countHit c r e k) = observed c @ [Emit Hit k (Some (val e))]"
  "stats (countHit c r e k) = (stats c)\<lparr>hits := hits (stats c) + 1\<rparr>"
  "heap (countHit c r e k) = fst (moveToFront (heap c, list c) r)"
  "list (countHit c r e k) = snd (moveToFront (heap c, list c) r)"
  by (simp_all add: countHit_def emit_def Let_def case_prod_beta)

text \<open>Promotion of an entry of the map: \<open>moveToFront\<close> on the list, nothing else.\<close>

lemma wf_promote:
  assumes w: "wf c xs" and m: "(k, r) \<in> set (map_store c)"
    and h: "heap c' = fst (moveToFront (heap c, list c) r)"
    and l: "list c' = snd (moveToFront (heap c, list c) r)"
    and s: "map_store c' = map_store c" "nextRef c' = nextRef c"
  shows "wf c' (r # remove1 r xs)"
proof (rule wf_relink[OF w])
  from wf_lookup[OF w m] have rin: "r \<in> set xs" by auto
  have d: "dll (heap c) (list c) xs" using w by (simp add: wf_def)
  show "dll (heap c') (list c') (r # remove1 r xs)" using dll_moveToFront[OF d rin] h l by simp
  show "same_data (heap c) (heap c')" using moveToFront_same_data[of "heap c" "list c" r] h by simp
  show "map_store c' = map_store c" "nextRef c' = nextRef c" using s by simp_all
  have "distinct xs" using d by (simp add: dll_def)
  then show "set (r # remove1 r xs) = set xs" using rin by auto
qed

lemma wf_countHit:
  "wf c xs \<Longrightarrow> (k, r) \<in> set (map_store c) \<Longrightarrow> wf (countHit c r e k') (r # remove1 r xs)"
  by (rule wf_promote) simp_all


lemma mapGet_removed:
  assumes w: "wf c xs" and g: "mapGet c k = Some (r, e)"
  shows "mapGet (removeEntry c r reason) k = None"
proof -
  from mapGet_in_store[OF g] have m: "(k, r) \<in> set (map_store c)" by simp
  have "map_store (removeEntry c r reason) = filter (\<lambda>kr. snd kr \<noteq> r) (map_store c)"
    using wf_removeEntry(2)[OF w m] .
  moreover have "\<And>r'. (k, r') \<in> set (map_store c) \<Longrightarrow> r' = r"
    using w m by (auto simp: wf_def dest: eq_key_imp_eq_value)
  ultimately have "k \<notin> fst ` set (map_store (removeEntry c r reason))" by auto
  then have "map_of (map_store (removeEntry c r reason)) k = None" by (simp add: map_of_eq_None_iff)
  then show ?thesis by (simp add: mapGet_def)
qed

lemma freshness_partition:
  "expiresAt e \<le> staleUntil e \<Longrightarrow>
   (isFresh e now \<and> \<not> isStale e now \<and> \<not> isExpired e now) \<or>
   (\<not> isFresh e now \<and> isStale e now \<and> \<not> isExpired e now) \<or>
   (\<not> isFresh e now \<and> \<not> isStale e now \<and> isExpired e now)"
  by (auto simp: isFresh_def isStale_def isExpired_def)

subsection \<open>get and the stale hit of getOrSet\<close>

lemma get_miss: "mapGet c k = None \<Longrightarrow> get c k now = (None, countMiss c k)"
  by (simp add: get_def)

lemma get_hit:
  "mapGet c k = Some (r, e) \<Longrightarrow> isFresh e now \<Longrightarrow> get c k now = (Some (val e), countHit c r e k)"
  by (simp add: get_def)

lemma get_stale:
  "mapGet c k = Some (r, e) \<Longrightarrow> \<not> isFresh e now \<Longrightarrow> \<not> isExpired e now \<Longrightarrow>
   get c k now = (None, countMiss c k)"
  by (simp add: get_def)

lemma get_expired:
  "mapGet c k = Some (r, e) \<Longrightarrow> \<not> isFresh e now \<Longrightarrow> isExpired e now \<Longrightarrow>
   get c k now = (None, countMiss (removeEntry c r Expired) k)"
  by (simp add: get_def)

lemma get_Some_fresh:
  "fst (get c k now) = Some v \<Longrightarrow> \<exists>r e. mapGet c k = Some (r, e) \<and> isFresh e now \<and> v = val e"
  by (auto simp: get_def split: option.splits if_splits)

lemma getOrSet_stale:
  assumes "mapGet c k = Some (r, e)" "isStale e now"
    and "case signal opts of None \<Rightarrow> True | Some sg \<Rightarrow> sg \<notin> set (aborted c)"
  shows "promises (getOrSet c k opts now) = promises c @ [Resolved (val e)]"
proof -
  have nf: "\<not> isFresh e now" using assms(2) by (simp add: isFresh_def isStale_def)
  have "\<not> (case signal opts of None \<Rightarrow> False | Some sg \<Rightarrow> sg \<in> set (aborted c))"
    using assms(3) by (simp split: option.splits)
  then show ?thesis using assms(1,2) nf
    by (simp add: getOrSet_def Let_def case_prod_beta returnPromise_def refreshInBackground_def
        executeLoader_def emit_def)
qed



lemma peek_absent: "mapGet c k = None \<Longrightarrow> peek c k now = (None, c)"
  by (simp add: peek_def)

lemma peek_live:
  "mapGet c k = Some (r, e) \<Longrightarrow> \<not> isExpired e now \<Longrightarrow> peek c k now = (Some (val e), c)"
  by (simp add: peek_def)

lemma peek_expired:
  "mapGet c k = Some (r, e) \<Longrightarrow> isExpired e now \<Longrightarrow> peek c k now = (None, removeEntry c r Expired)"
  by (simp add: peek_def)


subsection \<open>set, setWithSwr and the settling of a loader\<close>



lemma order_cong:
  "heap c' = heap c \<Longrightarrow> list c' = list c \<Longrightarrow> map_store c' = map_store c \<Longrightarrow> order c' = order c"
  by (simp add: order_def)

lemma mapGet_cong:
  "heap c' = heap c \<Longrightarrow> map_store c' = map_store c \<Longrightarrow> mapGet c' k = mapGet c k"
  by (simp add: mapGet_def split: option.splits)

lemma kept_head: "bound \<noteq> Some 0 \<Longrightarrow> r \<in> set (kept bound (r # xs))"
  by (cases bound) (auto simp: kept_def take_Suc_conv_app_nth gr0_conv_Suc)

text \<open>What a write leaves, whether the key was there or not.\<close>

lemma writeEntry_wf:
  assumes w: "wf c xs"
  shows "\<exists>c' e' xs'. writeEntry c k v e s = Some c' \<and> wf c' xs' \<and>
           heap c' (slotOf c k) = Some e' \<and> payload e' = (k, v, e, s) \<and>
           (\<forall>x. x \<noteq> slotOf c k \<longrightarrow> map_option payload (heap c' x) = map_option payload (heap c x)) \<and>
           same_rest c c' \<and>
           (maxSize c \<noteq> Some 0 \<longrightarrow>
              mapGet c' k = Some (slotOf c k, e') \<and> head (list c') = Some (slotOf c k))"
proof (cases "mapGet c k")
  case None
  then have sl: "slotOf c k = nextRef c" by (simp add: slotOf_def)
  from writeEntry_new[OF w None, of v e s] obtain c' e' where c':
    "writeEntry c k v e s = Some c'" "wf c' (kept (maxSize c) (nextRef c # xs))"
    "map_store c' = filter (\<lambda>kr. snd kr \<in> set (kept (maxSize c) (nextRef c # xs)))
                                 (map_store c @ [(k, nextRef c)])"
    "heap c' (nextRef c) = Some e'" "payload e' = (k, v, e, s)"
    "\<forall>x. x \<noteq> nextRef c \<longrightarrow> map_option payload (heap c' x) = map_option payload (heap c x)"
    "same_rest c c'"
    by blast
  have "maxSize c \<noteq> Some 0 \<longrightarrow> mapGet c' k = Some (nextRef c, e') \<and> head (list c') = Some (nextRef c)"
  proof
    assume nz: "maxSize c \<noteq> Some 0"
    then have rin: "nextRef c \<in> set (kept (maxSize c) (nextRef c # xs))" by (rule kept_head)
    then have "(k, nextRef c) \<in> set (map_store c')" using c'(3) by simp
    from wf_lookup[OF c'(2) this] c'(4) have 1: "mapGet c' k = Some (nextRef c, e')" by auto
    have "kept (maxSize c) (nextRef c # xs) \<noteq> []" using rin by auto
    moreover have "hd (kept (maxSize c) (nextRef c # xs)) = nextRef c"
      using nz by (cases "maxSize c") (auto simp: kept_def gr0_conv_Suc)
    moreover have "dll (heap c') (list c') (kept (maxSize c) (nextRef c # xs))"
      using c'(2) by (simp add: wf_def)
    ultimately have "head (list c') = Some (nextRef c)" using dll_head by fastforce
    then show "mapGet c' k = Some (nextRef c, e') \<and> head (list c') = Some (nextRef c)"
      using 1 by simp
  qed
  then show ?thesis using c'(1,2,4,5,6,7) sl by auto
next
  case (Some a)
  then obtain r e0 where g: "mapGet c k = Some (r, e0)" by (cases a) auto
  then have sl: "slotOf c k = r" by (simp add: slotOf_def)
  from writeEntry_existing[OF w g, of v e s] obtain c' e' where c':
    "writeEntry c k v e s = Some c'" "wf c' (r # remove1 r xs)" "map_store c' = map_store c"
    "heap c' r = Some e'" "payload e' = (k, v, e, s)"
    "\<forall>x. x \<noteq> r \<longrightarrow> map_option payload (heap c' x) = map_option payload (heap c x)"
    "same_rest c c'" "head (list c') = Some r"
    by blast
  have "(k, r) \<in> set (map_store c')" using mapGet_in_store[OF g] c'(3) by simp
  from wf_lookup[OF c'(2) this] c'(4) have "mapGet c' k = Some (r, e')" by auto
  then show ?thesis using c'(1,2,4,5,6,7,8) sl by auto
qed

lemma set_value_wf:
  assumes w: "wf c xs"
  shows "\<exists>c' e' xs'. set_value c k v ttlOpt now = Some c' \<and> wf c' xs' \<and>
           heap c' (slotOf c k) = Some e' \<and>
           payload e' = (k, v, now + ttlOf c ttlOpt, now + ttlOf c ttlOpt) \<and>
           (\<forall>x. x \<noteq> slotOf c k \<longrightarrow> map_option payload (heap c' x) = map_option payload (heap c x)) \<and>
           same_rest c c' \<and>
           (maxSize c \<noteq> Some 0 \<longrightarrow>
              mapGet c' k = Some (slotOf c k, e') \<and> head (list c') = Some (slotOf c k))"
  using writeEntry_wf[OF w, of k v "now + ttlOf c ttlOpt" "now + ttlOf c ttlOpt"]
  by (simp add: set_value_def Let_def ttlOf_def)

lemma setWithSwr_wf:
  assumes w: "wf c xs"
  shows "\<exists>c' e' xs'. setWithSwr c k v ttlOpt swrOpt now = Some c' \<and> wf c' xs' \<and>
           heap c' (slotOf c k) = Some e' \<and>
           payload e' = (k, v, now + ttlOf c ttlOpt, now + ttlOf c ttlOpt + swrOf swrOpt) \<and>
           (\<forall>x. x \<noteq> slotOf c k \<longrightarrow> map_option payload (heap c' x) = map_option payload (heap c x)) \<and>
           same_rest c c' \<and>
           (maxSize c \<noteq> Some 0 \<longrightarrow>
              mapGet c' k = Some (slotOf c k, e') \<and> head (list c') = Some (slotOf c k))"
  using writeEntry_wf[OF w, of k v "now + ttlOf c ttlOpt" "now + ttlOf c ttlOpt + swrOf swrOpt"]
  by (simp add: setWithSwr_def Let_def ttlOf_def swrOf_def)

lemma settle_Err:
  "ops c i = Some operation \<Longrightarrow>
   settle c i (Err x) now =
     Some (c\<lparr>ops := (ops c)(i := None),
             inflight := (if op_detached operation \<or> hasFinally (promises c) i
                          then (inflight c)(op_key operation := None) else inflight c),
             promises := map (deliver i (Err x)) (promises c)\<rparr>)"
  by (simp add: settle_def)

lemma settle_Ok:
  assumes w: "wf c xs" and o: "ops c i = Some operation"
  shows "\<exists>c1 c' e' xs'.
           setWithSwr c (op_key operation) v (op_ttlMs operation) (op_swrMs operation) now = Some c1 \<and>
           settle c i (Ok v) now = Some c' \<and> wf c' xs' \<and>
           heap c' = heap c1 \<and> list c' = list c1 \<and> map_store c' = map_store c1 \<and>
           nextRef c' = nextRef c1 \<and>
           heap c' (slotOf c (op_key operation)) = Some e' \<and>
           payload e' = (op_key operation, v, now + ttlOf c (op_ttlMs operation),
                         now + ttlOf c (op_ttlMs operation) + swrOf (op_swrMs operation)) \<and>
           (maxSize c \<noteq> Some 0 \<longrightarrow>
              mapGet c' (op_key operation) = Some (slotOf c (op_key operation), e') \<and>
              head (list c') = Some (slotOf c (op_key operation))) \<and>
           ops c' = (ops c)(i := None) \<and>
           inflight c' = (if op_detached operation \<or> hasFinally (promises c) i
                          then (inflight c)(op_key operation := None) else inflight c) \<and>
           promises c' = map (deliver i (Ok v)) (promises c) \<and>
           nextOp c' = nextOp c \<and> aborted c' = aborted c \<and>
           maxSize c' = maxSize c \<and> defaultTtlMs c' = defaultTtlMs c \<and>
           stats c' = (stats c1)\<lparr>loads := loads (stats c1) + 1\<rparr> \<and>
           observed c' = observed c1 @ [Emit Load (op_key operation) (Some v)]"
proof -
  let ?k = "op_key operation"
  from setWithSwr_wf[OF w, of ?k v "op_ttlMs operation" "op_swrMs operation" now]
  obtain c1 e' xs' where c1:
    "setWithSwr c ?k v (op_ttlMs operation) (op_swrMs operation) now = Some c1" "wf c1 xs'"
    "heap c1 (slotOf c ?k) = Some e'"
    "payload e' = (?k, v, now + ttlOf c (op_ttlMs operation),
                   now + ttlOf c (op_ttlMs operation) + swrOf (op_swrMs operation))"
    "same_rest c c1"
    "maxSize c \<noteq> Some 0 \<longrightarrow> mapGet c1 ?k = Some (slotOf c ?k, e') \<and> head (list c1) = Some (slotOf c ?k)"
    by blast
  let ?c2 = "emit (c1\<lparr>stats := (stats c1)\<lparr>loads := loads (stats c1) + 1\<rparr>\<rparr>) (Emit Load ?k (Some v))"
  let ?c' = "?c2\<lparr>ops := (ops ?c2)(i := None),
                 inflight := (if op_detached operation \<or> hasFinally (promises ?c2) i
                              then (inflight ?c2)(?k := None) else inflight ?c2),
                 promises := map (deliver i (Ok v)) (promises ?c2)\<rparr>"
  have eq: "settle c i (Ok v) now = Some ?c'" using o c1(1) by (simp add: settle_def)
  have wf': "wf ?c' xs'" using c1(2) by (simp add: wf_def emit_def)
  have mg: "mapGet ?c' ?k = mapGet c1 ?k" by (rule mapGet_cong) (simp_all add: emit_def)
  show ?thesis
    apply (rule exI[of _ c1], rule exI[of _ ?c'], rule exI[of _ e'], rule exI[of _ xs'])
    using eq wf' c1 mg by (simp add: emit_def same_rest_def)
qed

subsection \<open>The branches of getOrSet\<close>


lemma returnPromise_fields [simp]:
  "heap (returnPromise c p) = heap c" "list (returnPromise c p) = list c"
  "map_store (returnPromise c p) = map_store c" "nextRef (returnPromise c p) = nextRef c"
  "inflight (returnPromise c p) = inflight c" "maxSize (returnPromise c p) = maxSize c"
  "defaultTtlMs (returnPromise c p) = defaultTtlMs c"
  "ops (returnPromise c p) = ops c" "nextOp (returnPromise c p) = nextOp c"
  "promises (returnPromise c p) = promises c @ [p]" "aborted (returnPromise c p) = aborted c"
  "observed (returnPromise c p) = observed c" "stats (returnPromise c p) = stats c"
  by (simp_all add: returnPromise_def)

lemma missed_fields [simp]:
  "nextRef (missed c k) = nextRef c"
  "inflight (missed c k) = inflight c" "maxSize (missed c k) = maxSize c"
  "defaultTtlMs (missed c k) = defaultTtlMs c"
  "ops (missed c k) = ops c" "nextOp (missed c k) = nextOp c"
  "promises (missed c k) = promises c" "aborted (missed c k) = aborted c"
  by (simp_all add: missed_def split: option.splits)

lemma getOrSet_aborted:
  "\<not> notAborted c opts \<Longrightarrow> getOrSet c k opts now = returnPromise c (Rejected AbortError)"
  by (simp add: getOrSet_def notAborted_def split: option.splits)

lemma getOrSet_fresh:
  "notAborted c opts \<Longrightarrow> mapGet c k = Some (r, e) \<Longrightarrow> isFresh e now \<Longrightarrow>
   getOrSet c k opts now = returnPromise (countHit c r e k) (Resolved (val e))"
  by (simp add: getOrSet_def notAborted_def split: option.splits)

lemma getOrSet_stale_hit:
  "notAborted c opts \<Longrightarrow> mapGet c k = Some (r, e) \<Longrightarrow> isStale e now \<Longrightarrow>
   getOrSet c k opts now =
     returnPromise
       (refreshInBackground
          (emit (c\<lparr>heap := fst (moveToFront (heap c, list c) r),
                  list := snd (moveToFront (heap c, list c) r),
                  stats := (stats c)\<lparr>stale := stale (stats c) + 1\<rparr>\<rparr>)
                (Emit Stale k (Some (val e))))
          k opts)
       (Resolved (val e))"
  by (simp add: getOrSet_def notAborted_def isFresh_def isStale_def Let_def case_prod_beta
      split: option.splits)

lemma getOrSet_miss:
  assumes "notAborted c opts" "noLiveEntry c k now"
  shows "getOrSet c k opts now =
     (case (if dedupe opts \<noteq> Some False then inflight c k else None) of
        Some existing \<Rightarrow> returnPromise (missed c k) (Waiting existing (signal opts) False)
      | None \<Rightarrow>
          returnPromise
            ((missed c k)\<lparr>ops := (ops c)(nextOp c \<mapsto> loadOp k opts False),
                          nextOp := nextOp c + 1,
                          inflight := (if dedupe opts \<noteq> Some False then (inflight c)(k \<mapsto> nextOp c)
                                       else inflight c)\<rparr>)
            (Waiting (nextOp c) (signal opts) (dedupe opts \<noteq> Some False)))"
proof -
  have a: "\<not> (case signal opts of None \<Rightarrow> False | Some sg \<Rightarrow> sg \<in> set (aborted c))"
    using assms(1) by (simp add: notAborted_def split: option.splits)
  show ?thesis
  proof (cases "mapGet c k")
    case None
    then show ?thesis using a
      by (simp add: getOrSet_def missed_def Let_def loadOp_def executeLoader_def case_prod_beta
          split: option.splits)
  next
    case (Some re)
    obtain r e where re: "re = (r, e)" by (cases re)
    then have "\<not> isFresh e now" "\<not> isStale e now" using assms(2) Some by (simp_all add: noLiveEntry_def)
    then show ?thesis using a Some re
      by (simp add: getOrSet_def missed_def Let_def loadOp_def executeLoader_def case_prod_beta
          split: option.splits)
  qed
qed

lemma getOrSet_attach:
  "notAborted c opts \<Longrightarrow> noLiveEntry c k now \<Longrightarrow> dedupe opts \<noteq> Some False \<Longrightarrow>
   inflight c k = Some j \<Longrightarrow>
   getOrSet c k opts now = returnPromise (missed c k) (Waiting j (signal opts) False)"
  by (simp add: getOrSet_miss)

lemma getOrSet_load:
  "notAborted c opts \<Longrightarrow> noLiveEntry c k now \<Longrightarrow> dedupe opts = Some False \<or> inflight c k = None \<Longrightarrow>
   getOrSet c k opts now =
     returnPromise
       ((missed c k)\<lparr>ops := (ops c)(nextOp c \<mapsto> loadOp k opts False),
                     nextOp := nextOp c + 1,
                     inflight := (if dedupe opts \<noteq> Some False then (inflight c)(k \<mapsto> nextOp c)
                                  else inflight c)\<rparr>)
       (Waiting (nextOp c) (signal opts) (dedupe opts \<noteq> Some False))"
  by (auto simp: getOrSet_miss)


lemma refreshInBackground_eq:
  "refreshInBackground c k opts =
     (if inflight c k \<noteq> None then c
      else c\<lparr>ops := (ops c)(nextOp c \<mapsto> loadOp k opts True),
             nextOp := nextOp c + 1,
             inflight := (inflight c)(k \<mapsto> nextOp c)\<rparr>)"
  by (cases c) (auto simp: refreshInBackground_def executeLoader_def Let_def loadOp_def fun_eq_iff)

lemma getOrSet_cases:
  obtains
    (aborted) "\<not> notAborted c opts"
  | (fresh) r e where "notAborted c opts" "mapGet c k = Some (r, e)" "isFresh e now"
  | (stale) r e where "notAborted c opts" "mapGet c k = Some (r, e)" "isStale e now"
  | (miss) "notAborted c opts" "noLiveEntry c k now"
proof (cases "notAborted c opts")
  case False
  then show ?thesis by (rule aborted)
next
  case True
  show ?thesis
  proof (cases "mapGet c k")
    case None
    then have "noLiveEntry c k now" by (simp add: noLiveEntry_def)
    then show ?thesis using True by (rule miss[rotated])
  next
    case (Some re)
    obtain r e where re: "re = (r, e)" by (cases re)
    show ?thesis
    proof (cases "isFresh e now")
      case f: True
      show ?thesis using True Some re f by (auto intro: fresh)
    next
      case nf: False
      show ?thesis
      proof (cases "isStale e now")
        case s: True
        show ?thesis using True Some re s by (auto intro: stale)
      next
        case ns: False
        have "noLiveEntry c k now" using Some re nf ns by (simp add: noLiveEntry_def)
        then show ?thesis using True by (rule miss[rotated])
      qed
    qed
  qed
qed

lemma getOrSet_started:
  assumes "nextOp (getOrSet c k opts now) \<noteq> nextOp c"
  shows "\<exists>d. ops (getOrSet c k opts now) (nextOp c) = Some (loadOp k opts d)"
proof (cases rule: getOrSet_cases[where c=c and opts=opts and k=k and now=now])
  case aborted
  then show ?thesis using assms by (simp add: getOrSet_aborted)
next
  case (fresh r e)
  then show ?thesis using assms by (simp add: getOrSet_fresh)
next
  case (stale r e)
  then show ?thesis using assms
    by (auto simp: getOrSet_stale_hit refreshInBackground_eq emit_def split: if_splits)
next
  case miss
  then show ?thesis using assms
    by (auto simp: getOrSet_miss split: option.splits if_splits)
qed


subsection \<open>Promotion and eviction\<close>


lemma promoted_not_last:
  assumes "distinct xs" "r \<in> set xs" "xs \<noteq> [r]"
  shows "last (r # remove1 r xs) \<noteq> r"
proof -
  have ne: "remove1 r xs \<noteq> []"
  proof
    assume "remove1 r xs = []"
    then have "set xs - {r} = {}" using assms(1) set_remove1_eq[of xs r] by simp
    then have "set xs = {r}" using assms(2) by auto
    then have "xs = [r]" using assms(1)
      by (metis distinct.simps(2) distinct_singleton empty_iff insert_iff list.exhaust list.set(2)
          set_empty singleton_insert_inj_eq')
    then show False using assms(3) by simp
  qed
  then have "last (r # remove1 r xs) = last (remove1 r xs)" by simp
  moreover have "last (remove1 r xs) \<in> set (remove1 r xs)" using ne by simp
  moreover have "r \<notin> set (remove1 r xs)" using assms(1) by simp
  ultimately show ?thesis by metis
qed

lemma wf_tail: "wf c xs \<Longrightarrow> tail (list c) = (if xs = [] then None else Some (last xs))"
  using dll_tail[of "heap c" "list c" xs] by (simp add: wf_def)

lemma wf_distinct: "wf c xs \<Longrightarrow> distinct xs"
  by (simp add: wf_def dll_def)

lemma grow_within_bound:
  assumes i: "inv c" and g: "mapGet c k = None"
  shows "\<exists>c'. writeEntry c k v e s = Some c' \<and> inv c' \<and>
           order c' = kept (maxSize c) (nextRef c # order c) \<and>
           map_store c' = filter (\<lambda>kr. snd kr \<in> set (order c')) (map_store c @ [(k, nextRef c)]) \<and>
           observed c' = observed c
              @ removalObs Evicted (heap c') (rev (dropped (maxSize c) (nextRef c # order c)))
              @ [Emit SetEv k (Some v)] \<and>
           evictions (stats c') = evictions (stats c) + length (dropped (maxSize c) (nextRef c # order c)) \<and>
           (\<forall>m. maxSize c = Some m \<longrightarrow> length (map_store c') \<le> m) \<and>
           (maxSize c = None \<longrightarrow>
              map_store c' = map_store c @ [(k, nextRef c)] \<and>
              observed c' = observed c @ [Emit SetEv k (Some v)])"
proof -
  from i have w: "wf c (order c)" by (rule inv_wf)
  let ?ys = "nextRef c # order c"
  from writeEntry_new[OF w g, of v e s] obtain c' where c':
    "writeEntry c k v e s = Some c'" "wf c' (kept (maxSize c) ?ys)"
    "map_store c' = filter (\<lambda>kr. snd kr \<in> set (kept (maxSize c) ?ys)) (map_store c @ [(k, nextRef c)])"
    "observed c' = observed c @ removalObs Evicted (heap c') (rev (dropped (maxSize c) ?ys))
                     @ [Emit SetEv k (Some v)]"
    "stats c' = (stats c)\<lparr>evictions := evictions (stats c) + length (dropped (maxSize c) ?ys)\<rparr>"
    by blast
  have o: "order c' = kept (maxSize c) ?ys" using wf_order[OF c'(2)] .
  have len: "\<forall>m. maxSize c = Some m \<longrightarrow> length (map_store c') \<le> m"
    using wf_length[OF c'(2)] by (auto simp: kept_def)
  have unb: "maxSize c = None \<longrightarrow>
              map_store c' = map_store c @ [(k, nextRef c)] \<and>
              observed c' = observed c @ [Emit SetEv k (Some v)]"
  proof
    assume n: "maxSize c = None"
    have "filter (\<lambda>kr. snd kr \<in> set ?ys) (map_store c @ [(k, nextRef c)]) = map_store c @ [(k, nextRef c)]"
      using w by (auto simp: wf_def filter_id_conv)
    then show "map_store c' = map_store c @ [(k, nextRef c)] \<and>
              observed c' = observed c @ [Emit SetEv k (Some v)]"
      using c'(3,4) n by (simp add: kept_def dropped_def removalObs_def)
  qed
  show ?thesis using c'(1,3,4,5) wf_inv[OF c'(2)] o len unb by simp
qed

lemma rewrite_promotes:
  assumes i: "inv c" and g: "mapGet c k = Some (r, e0)"
  shows "\<exists>c'. writeEntry c k v e s = Some c' \<and> inv c' \<and>
           order c' = r # remove1 r (order c) \<and> map_store c' = map_store c \<and>
           observed c' = observed c @ [Emit SetEv k (Some v)] \<and>
           (order c \<noteq> [r] \<longrightarrow> tail (list c') \<noteq> Some r)"
proof -
  from i have w: "wf c (order c)" by (rule inv_wf)
  from mapGet_in_store[OF g] have m: "(k, r) \<in> set (map_store c)" by simp
  from wf_lookup[OF w m] have rin: "r \<in> set (order c)" by auto
  from writeEntry_existing[OF w g, of v e s] obtain c' where c':
    "writeEntry c k v e s = Some c'" "wf c' (r # remove1 r (order c))" "map_store c' = map_store c"
    "observed c' = observed c @ [Emit SetEv k (Some v)]"
    by blast
  have "order c \<noteq> [r] \<longrightarrow> tail (list c') \<noteq> Some r"
    using wf_tail[OF c'(2)] promoted_not_last[OF wf_distinct[OF w] rin] by simp
  then show ?thesis using c'(1,3,4) wf_inv[OF c'(2)] wf_order[OF c'(2)] by simp
qed

lemma get_promotes:
  assumes i: "inv c" and g: "mapGet c k = Some (r, e0)" and f: "isFresh e0 now"
  shows "order (snd (get c k now)) = r # remove1 r (order c) \<and>
         (order c \<noteq> [r] \<longrightarrow> tail (list (snd (get c k now))) \<noteq> Some r)"
proof -
  from i have w: "wf c (order c)" by (rule inv_wf)
  from mapGet_in_store[OF g] have m: "(k, r) \<in> set (map_store c)" by simp
  from wf_lookup[OF w m] have rin: "r \<in> set (order c)" by auto
  have w': "wf (countHit c r e0 k) (r # remove1 r (order c))" using wf_countHit[OF w m] .
  have "order c \<noteq> [r] \<longrightarrow> tail (list (countHit c r e0 k)) \<noteq> Some r"
    using wf_tail[OF w'] promoted_not_last[OF wf_distinct[OF w] rin] by simp
  then show ?thesis using get_hit[OF g f] wf_order[OF w'] by simp
qed

section \<open>The invariant along a run\<close>


lemma inv_new: "inv (newTtlCache ttl bound)"
  by (simp add: inv_def wf_def order_def dll_def newTtlCache_def emptyList_def)

lemma inv_cong:
  "heap c' = heap c \<Longrightarrow> list c' = list c \<Longrightarrow> map_store c' = map_store c \<Longrightarrow>
   nextRef c' = nextRef c \<Longrightarrow> inv c' = inv c"
  by (simp add: inv_def order_def wf_def)

lemma inv_set_value:
  assumes "inv c"
  shows "\<exists>c'. set_value c k v ttlOpt now = Some c' \<and> inv c'"
proof -
  from set_value_wf[OF inv_wf[OF assms], of k v ttlOpt now] obtain c' xs' where
    "set_value c k v ttlOpt now = Some c'" "wf c' xs'" by blast
  then show ?thesis using wf_inv by blast
qed

lemma inv_removeEntry:
  assumes "inv c" "mapGet c k = Some (r, e)"
  shows "inv (removeEntry c r reason)"
proof -
  have "(k, r) \<in> set (map_store c)" using mapGet_in_store[OF assms(2)] by simp
  from wf_removeEntry(1)[OF inv_wf[OF assms(1)] this] show ?thesis by (rule wf_inv)
qed

lemma inv_countMiss: "inv (countMiss c k) = inv c"
  by (rule inv_cong) simp_all

lemma inv_countHit:
  assumes "inv c" "mapGet c k = Some (r, e)"
  shows "inv (countHit c r e k')"
proof -
  have "(k, r) \<in> set (map_store c)" using mapGet_in_store[OF assms(2)] by simp
  from wf_countHit[OF inv_wf[OF assms(1)] this] show ?thesis by (rule wf_inv)
qed

lemma inv_get: "inv c \<Longrightarrow> inv (snd (get c k now))"
  by (auto simp: get_def inv_countMiss inv_removeEntry inv_countHit split: option.splits)

lemma inv_peek: "inv c \<Longrightarrow> inv (snd (peek c k now))"
  by (auto simp: peek_def inv_removeEntry split: option.splits)

lemma inv_has: "inv c \<Longrightarrow> inv (snd (has c k now))"
  by (auto simp: has_def inv_removeEntry split: option.splits)

lemma inv_delete: "inv c \<Longrightarrow> inv (snd (delete c k))"
  by (auto simp: delete_def inv_removeEntry split: option.splits)

lemma clear_fold_fields:
  "heap (fold (clearEntry h) ps c) = heap c \<and>
   nextRef (fold (clearEntry h) ps c) = nextRef c \<and>
   same_rest c (fold (clearEntry h) ps c) \<and>
   observed (fold (clearEntry h) ps c) = observed c @ removalObs Clear h (map snd ps)"
proof (induction ps arbitrary: c)
  case Nil
  then show ?case by (simp add: same_rest_def removalObs_def)
next
  case (Cons a ps)
  show ?case
    using Cons.IH[of "clearEntry h a c"]
    by (cases "h (snd a)") (simp_all add: clearEntry_def emit_def same_rest_def removalObs_def)
qed

lemma clear_effect:
  "map_store (clear c) = [] \<and> head (list (clear c)) = None \<and> tail (list (clear c)) = None \<and>
   heap (clear c) = heap c \<and> nextRef (clear c) = nextRef c \<and> same_rest c (clear c) \<and>
   observed (clear c) = observed c @ removalObs Clear (heap c) (map snd (map_store c))"
  using clear_fold_fields[of "heap c" "map_store c" c]
  by (simp add: clear_def Let_def listClear_def same_rest_def)

lemma inv_clear: "inv (clear c)"
  using clear_effect[of c] by (simp add: inv_def wf_def order_def dll_def)


lemma sweep_fold_wf:
  assumes "wf c xs" "set ps \<subseteq> set (map_store c)" "distinct (map snd ps)"
  shows "\<exists>xs'. wf (fold (sweepEntry now) ps c) xs' \<and> same_rest c (fold (sweepEntry now) ps c)"
  using assms
proof (induction ps arbitrary: c xs)
  case Nil
  then show ?case by (auto simp: same_rest_refl)
next
  case (Cons a ps)
  obtain k r where a: "a = (k, r)" by (cases a)
  have m: "(k, r) \<in> set (map_store c)" using Cons.prems(2) a by simp
  from wf_lookup[OF Cons.prems(1) m] obtain e where e: "heap c r = Some e" by auto
  have rest: "set ps \<subseteq> set (map_store c)" "distinct (map snd ps)" "r \<notin> snd ` set ps"
    using Cons.prems(2,3) a by auto
  show ?case
  proof (cases "isExpired e now")
    case True
    let ?c1 = "removeEntry c r Expired"
    have w1: "wf ?c1 (remove1 r xs)" using wf_removeEntry(1)[OF Cons.prems(1) m] .
    have "map_store ?c1 = filter (\<lambda>kr. snd kr \<noteq> r) (map_store c)"
      using wf_removeEntry(2)[OF Cons.prems(1) m] .
    then have sub: "set ps \<subseteq> set (map_store ?c1)" using rest(1,3) by auto
    from Cons.IH[OF w1 sub rest(2)] obtain xs' where
      A: "wf (fold (sweepEntry now) ps ?c1) xs'" and B: "same_rest ?c1 (fold (sweepEntry now) ps ?c1)"
      by blast
    have eq: "fold (sweepEntry now) (a # ps) c = fold (sweepEntry now) ps ?c1"
      using a e True by (simp add: sweepEntry_def)
    have "same_rest c (fold (sweepEntry now) ps ?c1)"
      using same_rest_trans[OF same_rest_removeEntry B] .
    then show ?thesis using A eq by auto
  next
    case False
    from Cons.IH[OF Cons.prems(1) rest(1,2)] obtain xs' where
      A: "wf (fold (sweepEntry now) ps c) xs'" and B: "same_rest c (fold (sweepEntry now) ps c)"
      by blast
    have eq: "fold (sweepEntry now) (a # ps) c = fold (sweepEntry now) ps c"
      using a e False by (simp add: sweepEntry_def)
    show ?thesis using A B eq by auto
  qed
qed

lemma inv_sweep:
  assumes "inv c"
  shows "inv (sweep c now)" and "same_rest c (sweep c now)"
proof -
  have w: "wf c (order c)" using assms by (rule inv_wf)
  have d: "distinct (map snd (map_store c))" using w by (simp add: wf_def)
  from sweep_fold_wf[OF w subset_refl d, of now] obtain xs' where
    "wf (sweep c now) xs'" "same_rest c (sweep c now)" by (auto simp: sweep_def)
  then show "inv (sweep c now)" and "same_rest c (sweep c now)" using wf_inv by blast+
qed

lemma inv_prune: "inv c \<Longrightarrow> inv (prune c now)"
  by (simp add: prune_def inv_sweep)

lemma inv_missed:
  assumes "inv c"
  shows "inv (missed c k)"
proof (cases "mapGet c k")
  case None
  then show ?thesis using assms by (simp add: missed_def inv_countMiss)
next
  case (Some re)
  obtain r e where "re = (r, e)" by (cases re)
  then show ?thesis using assms Some inv_removeEntry[of c k r e Expired]
    by (simp add: missed_def inv_countMiss)
qed

lemma mapGet_missed:
  assumes "inv c"
  shows "mapGet (missed c k) k = None"
proof (cases "mapGet c k")
  case None
  then show ?thesis by (simp add: missed_def)
next
  case (Some re)
  obtain r e where re: "re = (r, e)" by (cases re)
  then have "mapGet (removeEntry c r Expired) k = None"
    using mapGet_removed[OF inv_wf[OF assms], of k r e Expired] Some by simp
  then show ?thesis using Some re by (simp add: missed_def)
qed

lemma inv_getOrSet:
  assumes i: "inv c"
  shows "inv (getOrSet c k opts now)"
proof (cases rule: getOrSet_cases[where c=c and opts=opts and k=k and now=now])
  case aborted
  have "inv (returnPromise c (Rejected AbortError)) = inv c" by (rule inv_cong) simp_all
  then show ?thesis using aborted i by (simp add: getOrSet_aborted)
next
  case (fresh r e)
  have "inv (returnPromise (countHit c r e k) (Resolved (val e))) = inv (countHit c r e k)"
    by (rule inv_cong) simp_all
  then show ?thesis using fresh i inv_countHit[of c k r e k] by (simp add: getOrSet_fresh)
next
  case (stale r e)
  have m: "(k, r) \<in> set (map_store c)" using mapGet_in_store[OF stale(2)] by simp
  have "wf (getOrSet c k opts now) (r # remove1 r (order c))"
    by (rule wf_promote[OF inv_wf[OF i] m])
       (simp_all add: getOrSet_stale_hit[OF stale] refreshInBackground_eq emit_def)
  then show ?thesis by (rule wf_inv)
next
  case miss
  have "inv (getOrSet c k opts now) = inv (missed c k)"
    by (rule inv_cong) (simp_all add: getOrSet_miss[OF miss] split: option.splits)
  then show ?thesis using inv_missed[OF i] by simp
qed

lemma inv_settle:
  assumes i: "inv c"
  shows "\<exists>c'. settle c j res now = Some c' \<and> inv c'"
proof (cases "ops c j")
  case None
  then show ?thesis using i by (simp add: settle_def)
next
  case (Some operation)
  show ?thesis
  proof (cases res)
    case (Ok v)
    from settle_Ok[OF inv_wf[OF i] Some, of v now] obtain c' xs' where
      "settle c j (Ok v) now = Some c'" "wf c' xs'" by blast
    then show ?thesis using Ok wf_inv by blast
  next
    case (Err x)
    let ?c' = "c\<lparr>ops := (ops c)(j := None),
             inflight := (if op_detached operation \<or> hasFinally (promises c) j
                          then (inflight c)(op_key operation := None) else inflight c),
             promises := map (deliver j (Err x)) (promises c)\<rparr>"
    have "inv ?c' = inv c" by (rule inv_cong) simp_all
    then show ?thesis using settle_Err[OF Some, of x now] Err i by simp
  qed
qed

lemma inv_abort: "inv c \<Longrightarrow> inv (abort c sg)"
proof -
  assume i: "inv c"
  have "inv (abort c sg) = inv c" by (rule inv_cong) (simp_all add: abort_def)
  then show ?thesis using i by simp
qed

lemma inv_step: "inv c \<Longrightarrow> \<exists>c'. step c a = Some c' \<and> inv c'"
proof -
  assume i: "inv c"
  obtain now act where a: "a = (now, act)" by (cases a)
  show ?thesis
    using i a inv_set_value[OF i] inv_get[OF i] inv_peek[OF i] inv_has[OF i] inv_delete[OF i]
      inv_clear inv_prune[OF i] inv_getOrSet[OF i] inv_settle[OF i] inv_abort[OF i]
    by (cases act) simp_all
qed

lemma inv_run: "inv c \<Longrightarrow> \<exists>c'. run c as = Some c' \<and> inv c'"
proof (induction as arbitrary: c)
  case Nil
  then show ?case by simp
next
  case (Cons a as)
  from inv_step[OF Cons.prems, of a] obtain c1 where "step c a = Some c1" "inv c1" by blast
  then show ?case using Cons.IH[of c1] by simp
qed


lemma inv_the_run: "inv c \<Longrightarrow> inv (the (run c as))"
  using inv_run[of c as] by auto


lemma delete_effect:
  assumes "inv c"
  shows "inv (snd (delete c k))" "mapGet (snd (delete c k)) k = None"
    "same_rest c (snd (delete c k))"
proof -
  show "inv (snd (delete c k))" using assms by (rule inv_delete)
  show "mapGet (snd (delete c k)) k = None"
  proof (cases "mapGet c k")
    case None
    then show ?thesis by (simp add: delete_def)
  next
    case (Some re)
    obtain r e where re: "re = (r, e)" by (cases re)
    then show ?thesis using Some mapGet_removed[OF inv_wf[OF assms], of k r e Manual]
      by (simp add: delete_def)
  qed
  show "same_rest c (snd (delete c k))"
    by (simp add: delete_def same_rest_refl same_rest_removeEntry split: option.splits)
qed

lemma clear_mapGet: "mapGet (clear c) k = None"
  using clear_effect[of c] by (simp add: mapGet_def)


section \<open>Lemmas on settling and aborting\<close>


lemma abort_eq:
  "sg \<notin> set (aborted c) \<Longrightarrow>
   abort c sg = c\<lparr>aborted := sg # aborted c,
                  inflight := fold (\<lambda>k f. f(k := None)) (finallyKeys c sg) (inflight c),
                  promises := map (cancel sg) (promises c)\<rparr>"
  by (simp add: abort_def)

lemma abort_fields [simp]:
  "heap (abort c sg) = heap c" "list (abort c sg) = list c"
  "map_store (abort c sg) = map_store c" "nextRef (abort c sg) = nextRef c"
  "maxSize (abort c sg) = maxSize c" "defaultTtlMs (abort c sg) = defaultTtlMs c"
  "ops (abort c sg) = ops c" "nextOp (abort c sg) = nextOp c"
  "observed (abort c sg) = observed c" "stats (abort c sg) = stats c"
  by (simp_all add: abort_def)

lemma abort_promises:
  "sg \<notin> set (aborted c) \<Longrightarrow> promises (abort c sg) = map (cancel sg) (promises c)"
  by (simp add: abort_def)

lemma cancel_simps [simp]:
  "cancel sg (Waiting j (Some sg) fin) = Rejected AbortError"
  "s \<noteq> Some sg \<Longrightarrow> cancel sg (Waiting j s fin) = Waiting j s fin"
  "cancel sg (Resolved v) = Resolved v"
  "cancel sg (Rejected x) = Rejected x"
  by (simp_all add: cancel_def)

lemma deliver_simps [simp]:
  "deliver j res (Waiting j s fin) = outcome res"
  "j' \<noteq> j \<Longrightarrow> deliver j res (Waiting j' s fin) = Waiting j' s fin"
  "deliver j res (Resolved v) = Resolved v"
  "deliver j res (Rejected x) = Rejected x"
  by (simp_all add: deliver_def outcome_def)

text \<open>The settling of a pending load, whatever its result.\<close>

lemma settle_effect:
  assumes i: "inv c" and o: "ops c j = Some operation"
  shows "\<exists>c'. settle c j res now = Some c' \<and> inv c' \<and>
           promises c' = map (deliver j res) (promises c) \<and>
           ops c' = (ops c)(j := None) \<and>
           inflight c' = (if op_detached operation \<or> hasFinally (promises c) j
                          then (inflight c)(op_key operation := None) else inflight c) \<and>
           nextOp c' = nextOp c \<and> aborted c' = aborted c \<and>
           maxSize c' = maxSize c \<and> defaultTtlMs c' = defaultTtlMs c"
proof (cases res)
  case (Ok v)
  from settle_Ok[OF inv_wf[OF i] o, where v=v and now=now] obtain c' xs' where
    "settle c j (Ok v) now = Some c'" "wf c' xs'"
    "promises c' = map (deliver j (Ok v)) (promises c)"
    "ops c' = (ops c)(j := None)"
    "inflight c' = (if op_detached operation \<or> hasFinally (promises c) j
                          then (inflight c)(op_key operation := None) else inflight c)"
    "nextOp c' = nextOp c" "aborted c' = aborted c"
    "maxSize c' = maxSize c" "defaultTtlMs c' = defaultTtlMs c"
    by blast
  then show ?thesis using Ok wf_inv[of c' xs'] by simp
next
  case (Err x)
  let ?c' = "c\<lparr>ops := (ops c)(j := None),
             inflight := (if op_detached operation \<or> hasFinally (promises c) j
                          then (inflight c)(op_key operation := None) else inflight c),
             promises := map (deliver j (Err x)) (promises c)\<rparr>"
  have "inv ?c' = inv c" by (rule inv_cong) simp_all
  then show ?thesis using settle_Err[OF o, of x now] Err i by simp
qed

lemma settle_Err_store:
  "ops c j = Some operation \<Longrightarrow> settle c j (Err x) now = Some c' \<Longrightarrow>
   heap c' = heap c \<and> list c' = list c \<and> map_store c' = map_store c \<and> nextRef c' = nextRef c \<and>
   stats c' = stats c \<and> observed c' = observed c"
  by (auto simp: settle_Err)


lemma cancel_other:
  "(\<forall>j f. p \<noteq> Waiting j (Some sg) f) \<Longrightarrow> cancel sg p = p"
  by (cases p) (auto simp: cancel_def)



section \<open>Lemmas on calls that share a load\<close>


lemma missed_absent: "mapGet c k = None \<Longrightarrow> missed c k = countMiss c k"
  by (simp add: missed_def)

lemma noLive_absent: "mapGet c k = None \<Longrightarrow> noLiveEntry c k now"
  by (simp add: noLiveEntry_def)

text \<open>The call that finds a miss and nothing registered: it starts the load and registers it.\<close>

lemma getOrSet_first:
  assumes i: "inv c" and na: "notAborted c opts" and nl: "noLiveEntry c k now"
    and dd: "dedupe opts \<noteq> Some False" and nf: "inflight c k = None"
  shows "inv (getOrSet c k opts now)"
    and "mapGet (getOrSet c k opts now) k = None"
    and "inflight (getOrSet c k opts now) k = Some (nextOp c)"
    and "ops (getOrSet c k opts now) = (ops c)(nextOp c \<mapsto> loadOp k opts False)"
    and "nextOp (getOrSet c k opts now) = nextOp c + 1"
    and "promises (getOrSet c k opts now) = promises c @ [Waiting (nextOp c) (signal opts) True]"
    and "aborted (getOrSet c k opts now) = aborted c"
proof -
  have eq: "getOrSet c k opts now =
     returnPromise
       ((missed c k)\<lparr>ops := (ops c)(nextOp c \<mapsto> loadOp k opts False),
                     nextOp := nextOp c + 1,
                     inflight := (if dedupe opts \<noteq> Some False then (inflight c)(k \<mapsto> nextOp c)
                                  else inflight c)\<rparr>)
       (Waiting (nextOp c) (signal opts) (dedupe opts \<noteq> Some False))"
    using getOrSet_load[OF na nl] nf by simp
  show "inv (getOrSet c k opts now)" using i by (rule inv_getOrSet)
  have "mapGet (getOrSet c k opts now) k = mapGet (missed c k) k"
    by (rule mapGet_cong) (simp_all add: eq)
  then show "mapGet (getOrSet c k opts now) k = None" using mapGet_missed[OF i] by simp
  show "inflight (getOrSet c k opts now) k = Some (nextOp c)" using dd by (simp add: eq)
  show "ops (getOrSet c k opts now) = (ops c)(nextOp c \<mapsto> loadOp k opts False)" by (simp add: eq)
  show "nextOp (getOrSet c k opts now) = nextOp c + 1" by (simp add: eq)
  show "promises (getOrSet c k opts now) = promises c @ [Waiting (nextOp c) (signal opts) True]"
    using dd by (simp add: eq)
  show "aborted (getOrSet c k opts now) = aborted c" by (simp add: eq)
qed

text \<open>A call that finds a miss and a load registered: it waits on that load.\<close>

lemma getOrSet_joins:
  assumes i: "inv c" and na: "notAborted c opts" and g: "mapGet c k = None"
    and dd: "dedupe opts \<noteq> Some False" and f: "inflight c k = Some j"
  shows "inv (getOrSet c k opts now)"
    and "mapGet (getOrSet c k opts now) k = None"
    and "inflight (getOrSet c k opts now) = inflight c"
    and "ops (getOrSet c k opts now) = ops c"
    and "nextOp (getOrSet c k opts now) = nextOp c"
    and "promises (getOrSet c k opts now) = promises c @ [Waiting j (signal opts) False]"
    and "aborted (getOrSet c k opts now) = aborted c"
proof -
  have eq: "getOrSet c k opts now = returnPromise (countMiss c k) (Waiting j (signal opts) False)"
    using getOrSet_attach[OF na noLive_absent[OF g] dd f] missed_absent[OF g] by simp
  show "inv (getOrSet c k opts now)" using i by (rule inv_getOrSet)
  have "mapGet (getOrSet c k opts now) k = mapGet c k"
    by (rule mapGet_cong) (simp_all add: eq)
  then show "mapGet (getOrSet c k opts now) k = None" using g by simp
  show "inflight (getOrSet c k opts now) = inflight c" by (simp add: eq)
  show "ops (getOrSet c k opts now) = ops c" by (simp add: eq)
  show "nextOp (getOrSet c k opts now) = nextOp c" by (simp add: eq)
  show "promises (getOrSet c k opts now) = promises c @ [Waiting j (signal opts) False]"
    by (simp add: eq)
  show "aborted (getOrSet c k opts now) = aborted c" by (simp add: eq)
qed

lemma notAborted_cong: "aborted c' = aborted c \<Longrightarrow> notAborted c' opts = notAborted c opts"
  by (simp add: notAborted_def split: option.splits)

lemma joiners_fold:
  assumes "inv s" "mapGet s k = None" "inflight s k = Some j"
    and "list_all (\<lambda>ot. notAborted s (fst ot) \<and> dedupe (fst ot) \<noteq> Some False) others"
  shows "inv (fold (\<lambda>ot s'. getOrSet s' k (fst ot) (snd ot)) others s) \<and>
         inflight (fold (\<lambda>ot s'. getOrSet s' k (fst ot) (snd ot)) others s) = inflight s \<and>
         ops (fold (\<lambda>ot s'. getOrSet s' k (fst ot) (snd ot)) others s) = ops s \<and>
         nextOp (fold (\<lambda>ot s'. getOrSet s' k (fst ot) (snd ot)) others s) = nextOp s \<and>
         promises (fold (\<lambda>ot s'. getOrSet s' k (fst ot) (snd ot)) others s) =
           promises s @ map (\<lambda>ot. Waiting j (signal (fst ot)) False) others"
  using assms
proof (induction others arbitrary: s)
  case Nil
  then show ?case by simp
next
  case (Cons a others)
  let ?s1 = "getOrSet s k (fst a) (snd a)"
  have a: "notAborted s (fst a)" "dedupe (fst a) \<noteq> Some False" using Cons.prems(4) by simp_all
  note j = getOrSet_joins[OF Cons.prems(1) a(1) Cons.prems(2) a(2) Cons.prems(3), of "snd a"]
  have l: "list_all (\<lambda>ot. notAborted ?s1 (fst ot) \<and> dedupe (fst ot) \<noteq> Some False) others"
    using Cons.prems(4) notAborted_cong[OF j(7)] by (simp add: list_all_iff)
  have f: "inflight ?s1 k = Some j" using j(3) Cons.prems(3) by simp
  from Cons.IH[OF j(1) j(2) f l] show ?case using j(3,4,5,6) by simp
qed


text \<open>
  A load that fails while the caller that started it still waits: every waiter gets the
  error, map, list and entries are as they were, the key is unregistered, and the next
  call finds a miss and calls the loader again.
\<close>

lemma failed_load_can_be_retried:
  fixes c :: "('k, 'v) TtlCache"
  assumes i: "inv c" and g: "mapGet c k = None" and o: "ops c j = Some operation"
    and k: "op_key operation = k" and f: "hasFinally (promises c) j"
    and na: "notAborted c opts" and dd: "dedupe opts \<noteq> Some False"
  shows "\<exists>c'. settle c j (Err x) now = Some c' \<and>
           promises c' = map (deliver j (Err x)) (promises c) \<and>
           heap c' = heap c \<and> list c' = list c \<and> map_store c' = map_store c \<and>
           inflight c' k = None \<and>
           nextOp (getOrSet c' k opts now') = nextOp c + 1 \<and>
           inflight (getOrSet c' k opts now') k = Some (nextOp c)"
proof -
  from settle_effect[OF i o, of "Err x" now] obtain c' where c':
    "settle c j (Err x) now = Some c'" "inv c'"
    "promises c' = map (deliver j (Err x)) (promises c)"
    "inflight c' = (if op_detached operation \<or> hasFinally (promises c) j
                          then (inflight c)(op_key operation := None) else inflight c)"
    "nextOp c' = nextOp c" "aborted c' = aborted c"
    by blast
  note st = settle_Err_store[OF o c'(1)]
  have reg: "inflight c' k = None" using c'(4) f k by simp
  have "mapGet c' k = mapGet c k" by (rule mapGet_cong) (simp_all add: st)
  then have nl: "noLiveEntry c' k now'" using g by (simp add: noLive_absent)
  have na': "notAborted c' opts" using na notAborted_cong[OF c'(6)] by simp
  note r = getOrSet_first[OF c'(2) na' nl dd reg]
  show ?thesis using c'(1,3,5) st reg r(3,5) by simp
qed

section \<open>Lemmas on the stale hit\<close>




section \<open>The example runs, evaluated\<close>


lemmas unfold_ops = newTtlCache_def getOrSet_def mapGet_def countMiss_def countHit_def emit_def
  executeLoader_def refreshInBackground_def returnPromise_def Let_def emptyList_def
  DEFAULT_TTL_MS_def settle_def setWithSwr_def set_value_def writeEntry_def
  addToFront_def remove_def moveToFront_def removeEntry_def mapDelete_def
  enforceMaxSize_def newCacheEntry_def hasFinally_def deliver_def upd_def
  isFresh_def isStale_def isExpired_def get_def peek_def has_def delete_def abort_def
  cancel_def finallyKeys_def

lemmas unfold_inv = inv_def wf_def order_def dll_def

lemma loadedOnce_entry:
  "mapGet loadedOnce ''k'' =
     Some (0, \<lparr>key = ''k'', val = 7, expiresAt = 1000, staleUntil = 1200, prev = None, nxt = None\<rparr>)"
  by (simp add: loadedOnce_def swrOptions_def unfold_ops)

lemma loadedOnce_inv: "inv loadedOnce"
  by (simp add: loadedOnce_def swrOptions_def unfold_ops unfold_inv)


lemma loading_inv: "inv loading"
  by (simp add: loading_def swrOptions_def unfold_ops unfold_inv)

lemma loading_op:
  "ops loading 0 = Some \<lparr>op_key = ''k'', op_ttlMs = Some 1000, op_swrMs = Some 200, op_detached = False\<rparr>"
  by (simp add: loading_def swrOptions_def unfold_ops)



lemma twoOfTwo_eq:
  "twoOfTwo =
     \<lparr>heap = [0 \<mapsto> \<lparr>key = ''a'', val = 1, expiresAt = 30000, staleUntil = 30000, prev = Some 1, nxt = None\<rparr>,
              1 \<mapsto> \<lparr>key = ''b'', val = 2, expiresAt = 30000, staleUntil = 30000, prev = None, nxt = Some 0\<rparr>],
      nextRef = 2, map_store = [(''a'', 0), (''b'', 1)],
      list = \<lparr>head = Some 1, tail = Some 0\<rparr>,
      inflight = (\<lambda>k. None), defaultTtlMs = 30000, maxSize = Some 2,
      stats = \<lparr>hits = 0, misses = 0, stale = 0, loads = 0, evictions = 0\<rparr>,
      observed = [Emit SetEv ''a'' (Some 1), Emit SetEv ''b'' (Some 2)],
      ops = (\<lambda>i. None), nextOp = 0, promises = [], aborted = []\<rparr>"
  apply (simp add: twoOfTwo_def unfold_ops enforce_done)
  apply (auto simp: fun_eq_iff)
  done

lemma twoOfTwo_inv: "inv twoOfTwo"
  by (auto simp: twoOfTwo_eq unfold_inv)

lemma setWhileLoading_inv: "inv setWhileLoading"
  unfolding setWhileLoading_def by (rule inv_the_run[OF inv_new])

lemma setWhileLoading_facts:
  "ops setWhileLoading 0 = Some \<lparr>op_key = ''k'', op_ttlMs = Some 1000, op_swrMs = Some 200, op_detached = False\<rparr>"
  "maxSize setWhileLoading = None"
  "map_option (\<lambda>re. val (snd re)) (mapGet setWhileLoading ''k'') = Some 1"
  by (simp_all add: setWhileLoading_def swrOptions_def unfold_ops enforce_done)


lemma twoWaiters_inv: "inv twoWaiters"
  unfolding twoWaiters_def by (rule inv_the_run[OF inv_new])

lemma twoWaiters_facts:
  "promises twoWaiters = [Waiting 0 (Some 0) True, Waiting 0 None False]"
  "ops twoWaiters 0 = Some \<lparr>op_key = ''k'', op_ttlMs = None, op_swrMs = None, op_detached = False\<rparr>"
  "aborted twoWaiters = []" "nextOp twoWaiters = 1" "inflight twoWaiters ''k'' = Some 0"
  by (simp_all add: twoWaiters_def signalOptions_def plainOptions_def unfold_ops)


lemma twoTtls_eq:
  "twoTtls =
     \<lparr>heap = [0 \<mapsto> \<lparr>key = ''a'', val = 1, expiresAt = 10, staleUntil = 10, prev = Some 1, nxt = None\<rparr>,
              1 \<mapsto> \<lparr>key = ''b'', val = 2, expiresAt = 1000, staleUntil = 1000, prev = None, nxt = Some 0\<rparr>],
      nextRef = 2, map_store = [(''a'', 0), (''b'', 1)],
      list = \<lparr>head = Some 1, tail = Some 0\<rparr>,
      inflight = (\<lambda>k. None), defaultTtlMs = 30000, maxSize = None,
      stats = \<lparr>hits = 0, misses = 0, stale = 0, loads = 0, evictions = 0\<rparr>,
      observed = [Emit SetEv ''a'' (Some 1), Emit SetEv ''b'' (Some 2)],
      ops = (\<lambda>i. None), nextOp = 0, promises = [], aborted = []\<rparr>"
  apply (simp add: twoTtls_def unfold_ops)
  apply (auto simp: fun_eq_iff)
  done

lemma firstNext_eq:
  "firstNext = (Some (''b'', 2),
                \<lparr>gen_now = Some 20, gen_seen = [0, 1], gen_expired = [0], gen_done = False\<rparr>,
                twoTtls)"
  by (simp add: firstNext_def generatorNext_def newGenerator_def twoTtls_eq isExpired_def isFresh_def)

lemma readInBody_eq:
  "readInBody =
     \<lparr>heap = [0 \<mapsto> \<lparr>key = ''a'', val = 1, expiresAt = 10, staleUntil = 10, prev = None, nxt = None\<rparr>,
              1 \<mapsto> \<lparr>key = ''b'', val = 2, expiresAt = 1000, staleUntil = 1000, prev = None, nxt = None\<rparr>],
      nextRef = 2, map_store = [(''b'', 1)],
      list = \<lparr>head = Some 1, tail = Some 1\<rparr>,
      inflight = (\<lambda>k. None), defaultTtlMs = 30000, maxSize = None,
      stats = \<lparr>hits = 0, misses = 1, stale = 0, loads = 0, evictions = 1\<rparr>,
      observed = [Emit SetEv ''a'' (Some 1), Emit SetEv ''b'' (Some 2),
                  OnEvict ''a'' 1 Expired, Emit Evict ''a'' (Some 1), Emit Miss ''a'' None],
      ops = (\<lambda>i. None), nextOp = 0, promises = [], aborted = []\<rparr>"
  apply (simp add: readInBody_def firstNext_eq twoTtls_eq unfold_ops)
  apply (auto simp: fun_eq_iff)
  done



lemma staleTail_facts:
  "mapGet staleTail ''a'' =
     Some (0, \<lparr>key = ''a'', val = 1, expiresAt = 1000, staleUntil = 1200, prev = Some 1, nxt = None\<rparr>)"
  "order staleTail = [1, 0]"
  "tail (list staleTail) = Some 0"
  "map_store staleTail = [(''a'', 0), (''b'', 1)]"
  "maxSize staleTail = Some 2"
  by (simp_all add: staleTail_def swrOptions_def unfold_ops enforce_done order_def)


section \<open>get\<close>

text \<open>
  Claim C5. \<open>get(key)\<close> returns the value only when the entry is fresh. On a fresh hit
  the entry becomes the head of the eviction list and a hit is counted. On a stale entry
  \<open>get\<close> returns nothing and counts a miss, the entry stays, and \<open>getOrSet\<close> at the
  same moment resolves with the stale value. On an expired entry \<open>get\<close> returns
  nothing, counts a miss and removes the entry with reason \<open>expired\<close>. The entry is one
  whose stale window does not end before its fresh window (\<open>expiresAt \<le> staleUntil\<close>),
  as every write with a non-negative stale window leaves it.
\<close>

theorem get_returns_fresh_only:
  assumes i: "inv c" and g: "mapGet c k = Some (r, e)"
  shows "(\<forall>v. fst (get c k now) = Some v \<longrightarrow> isFresh e now \<and> v = val e) \<and>
         (isFresh e now \<longrightarrow>
            fst (get c k now) = Some (val e) \<and>
            order (snd (get c k now)) = r # remove1 r (order c) \<and>
            head (list (snd (get c k now))) = Some r \<and>
            map_store (snd (get c k now)) = map_store c \<and>
            stats (snd (get c k now)) = (stats c)\<lparr>hits := hits (stats c) + 1\<rparr> \<and>
            observed (snd (get c k now)) = observed c @ [Emit Hit k (Some (val e))]) \<and>
         (isStale e now \<longrightarrow>
            fst (get c k now) = None \<and>
            snd (get c k now) = countMiss c k \<and>
            stats (snd (get c k now)) = (stats c)\<lparr>misses := misses (stats c) + 1\<rparr> \<and>
            mapGet (snd (get c k now)) k = Some (r, e) \<and>
            (\<forall>opts. (case signal opts of None \<Rightarrow> True | Some sg \<Rightarrow> sg \<notin> set (aborted c)) \<longrightarrow>
               promises (getOrSet c k opts now) = promises c @ [Resolved (val e)])) \<and>
         (isExpired e now \<and> expiresAt e \<le> staleUntil e \<longrightarrow>
            fst (get c k now) = None \<and>
            mapGet (snd (get c k now)) k = None \<and>
            order (snd (get c k now)) = remove1 r (order c) \<and>
            stats (snd (get c k now)) =
              (stats c)\<lparr>evictions := evictions (stats c) + 1, misses := misses (stats c) + 1\<rparr> \<and>
            observed (snd (get c k now)) =
              observed c @ [OnEvict k (val e) Expired, Emit Evict k (Some (val e)), Emit Miss k None])"
proof -
  from i have w: "wf c (order c)" by (rule inv_wf)
  from mapGet_in_store[OF g] have m: "(k, r) \<in> set (map_store c)" and h: "heap c r = Some e" by simp_all
  from wf_lookup[OF w m] h have ke: "key e = k" by auto
  have only: "\<forall>v. fst (get c k now) = Some v \<longrightarrow> isFresh e now \<and> v = val e"
    using get_Some_fresh[of c k now] g by auto
  have fresh: "isFresh e now \<longrightarrow>
            fst (get c k now) = Some (val e) \<and>
            order (snd (get c k now)) = r # remove1 r (order c) \<and>
            head (list (snd (get c k now))) = Some r \<and>
            map_store (snd (get c k now)) = map_store c \<and>
            stats (snd (get c k now)) = (stats c)\<lparr>hits := hits (stats c) + 1\<rparr> \<and>
            observed (snd (get c k now)) = observed c @ [Emit Hit k (Some (val e))]"
  proof
    assume f: "isFresh e now"
    have "wf (countHit c r e k) (r # remove1 r (order c))" using wf_countHit[OF w m] .
    then have "order (countHit c r e k) = r # remove1 r (order c)" by (rule wf_order)
    then show "fst (get c k now) = Some (val e) \<and>
            order (snd (get c k now)) = r # remove1 r (order c) \<and>
            head (list (snd (get c k now))) = Some r \<and>
            map_store (snd (get c k now)) = map_store c \<and>
            stats (snd (get c k now)) = (stats c)\<lparr>hits := hits (stats c) + 1\<rparr> \<and>
            observed (snd (get c k now)) = observed c @ [Emit Hit k (Some (val e))]"
      using get_hit[OF g f] by (simp add: moveToFront_head)
  qed
  have stale: "isStale e now \<longrightarrow>
            fst (get c k now) = None \<and>
            snd (get c k now) = countMiss c k \<and>
            stats (snd (get c k now)) = (stats c)\<lparr>misses := misses (stats c) + 1\<rparr> \<and>
            mapGet (snd (get c k now)) k = Some (r, e) \<and>
            (\<forall>opts. (case signal opts of None \<Rightarrow> True | Some sg \<Rightarrow> sg \<notin> set (aborted c)) \<longrightarrow>
               promises (getOrSet c k opts now) = promises c @ [Resolved (val e)])"
  proof
    assume s: "isStale e now"
    then have nf: "\<not> isFresh e now" and ne: "\<not> isExpired e now"
      by (simp_all add: isFresh_def isStale_def isExpired_def)
    show "fst (get c k now) = None \<and>
            snd (get c k now) = countMiss c k \<and>
            stats (snd (get c k now)) = (stats c)\<lparr>misses := misses (stats c) + 1\<rparr> \<and>
            mapGet (snd (get c k now)) k = Some (r, e) \<and>
            (\<forall>opts. (case signal opts of None \<Rightarrow> True | Some sg \<Rightarrow> sg \<notin> set (aborted c)) \<longrightarrow>
               promises (getOrSet c k opts now) = promises c @ [Resolved (val e)])"
      using get_stale[OF g nf ne] g getOrSet_stale[OF g s] by simp
  qed
  have expired: "isExpired e now \<and> expiresAt e \<le> staleUntil e \<longrightarrow>
            fst (get c k now) = None \<and>
            mapGet (snd (get c k now)) k = None \<and>
            order (snd (get c k now)) = remove1 r (order c) \<and>
            stats (snd (get c k now)) =
              (stats c)\<lparr>evictions := evictions (stats c) + 1, misses := misses (stats c) + 1\<rparr> \<and>
            observed (snd (get c k now)) =
              observed c @ [OnEvict k (val e) Expired, Emit Evict k (Some (val e)), Emit Miss k None]"
  proof
    assume a: "isExpired e now \<and> expiresAt e \<le> staleUntil e"
    then have x: "isExpired e now" and nf: "\<not> isFresh e now"
      by (simp_all add: isFresh_def isExpired_def)
    have "wf (removeEntry c r Expired) (remove1 r (order c))" using wf_removeEntry(1)[OF w m] .
    then have o: "order (removeEntry c r Expired) = remove1 r (order c)" by (rule wf_order)
    show "fst (get c k now) = None \<and>
            mapGet (snd (get c k now)) k = None \<and>
            order (snd (get c k now)) = remove1 r (order c) \<and>
            stats (snd (get c k now)) =
              (stats c)\<lparr>evictions := evictions (stats c) + 1, misses := misses (stats c) + 1\<rparr> \<and>
            observed (snd (get c k now)) =
              observed c @ [OnEvict k (val e) Expired, Emit Evict k (Some (val e)), Emit Miss k None]"
      using get_expired[OF g nf x] mapGet_removed[OF w g, of Expired] o h ke
      by (simp add: removeEntry_Some)
  qed
  show ?thesis by (rule conjI[OF only conjI[OF fresh conjI[OF stale expired]]])
qed



theorem get_returns_fresh_only_witness:
  "fst (get loadedOnce ''k'' 700) = Some 7 \<and>
   head (list (snd (get loadedOnce ''k'' 700))) = Some 0 \<and>
   hits (stats (snd (get loadedOnce ''k'' 700))) = 1 \<and>
   fst (get loadedOnce ''k'' 1050) = None \<and>
   misses (stats (snd (get loadedOnce ''k'' 1050))) = 2 \<and>
   promises (getOrSet loadedOnce ''k'' swrOptions 1050) = [Resolved 7, Resolved 7] \<and>
   fst (get loadedOnce ''k'' 1300) = None \<and>
   mapGet (snd (get loadedOnce ''k'' 1300)) ''k'' = None \<and>
   order (snd (get loadedOnce ''k'' 1300)) = []"
proof -
  let ?e = "\<lparr>key = ''k'', val = 7::nat, expiresAt = 1000, staleUntil = 1200, prev = None, nxt = None\<rparr>"
  note t = get_returns_fresh_only[OF loadedOnce_inv loadedOnce_entry]
  have f: "isFresh ?e 700" and s: "isStale ?e 1050"
    and x: "isExpired ?e 1300 \<and> expiresAt ?e \<le> staleUntil ?e"
    by (simp_all add: isFresh_def isStale_def isExpired_def)
  have a: "case signal swrOptions of None \<Rightarrow> True | Some sg \<Rightarrow> sg \<notin> set (aborted loadedOnce)"
    by (simp add: swrOptions_def)
  have st: "stats loadedOnce = \<lparr>hits = 0, misses = 1, stale = 0, loads = 1, evictions = 0\<rparr>"
    "promises loadedOnce = [Resolved 7]" "order loadedOnce = [0]"
    by (simp_all add: loadedOnce_def swrOptions_def unfold_ops order_def)
  note t1 = t[of 700, THEN conjunct2, THEN conjunct1, THEN mp, OF f]
  note t2 = t[of 1050, THEN conjunct2, THEN conjunct2, THEN conjunct1, THEN mp, OF s]
  note t3 = t[of 1300, THEN conjunct2, THEN conjunct2, THEN conjunct2, THEN mp, OF x]
  have 1: "fst (get loadedOnce ''k'' 700) = Some 7"
    "head (list (snd (get loadedOnce ''k'' 700))) = Some 0"
    "hits (stats (snd (get loadedOnce ''k'' 700))) = 1"
    using t1 st(1) by simp_all
  have 2: "fst (get loadedOnce ''k'' 1050) = None"
    "misses (stats (snd (get loadedOnce ''k'' 1050))) = 2"
    using t2 st(1) by simp_all
  have 3: "promises (getOrSet loadedOnce ''k'' swrOptions 1050) = [Resolved 7, Resolved 7]"
    using t2 a st(2) by simp
  have 4: "fst (get loadedOnce ''k'' 1300) = None"
    "mapGet (snd (get loadedOnce ''k'' 1300)) ''k'' = None"
    "order (snd (get loadedOnce ''k'' 1300)) = []"
    using t3 st(3) by simp_all
  show ?thesis using 1 2 3 4 by simp
qed

section \<open>peek\<close>

text \<open>
  Claim C2, as stated: \<open>peek\<close> applies the freshness check of \<open>get\<close>, so that on a stale
  entry it returns nothing as \<open>get\<close> does. It does not: on the entry loaded at 0 with
  \<open>ttlMs = 1000\<close> and \<open>swrMs = 200\<close>, at time 1050, \<open>get\<close> returns nothing and \<open>peek\<close>
  returns the value.
\<close>

theorem peek_serves_stale_counterexample:
  "mapGet loadedOnce ''k'' =
     Some (0, \<lparr>key = ''k'', val = 7, expiresAt = 1000, staleUntil = 1200, prev = None, nxt = None\<rparr>) \<and>
   isStale \<lparr>key = ''k'', val = 7::nat, expiresAt = 1000, staleUntil = 1200, prev = None, nxt = None\<rparr> 1050 \<and>
   fst (get loadedOnce ''k'' 1050) = None \<and>
   fst (peek loadedOnce ''k'' 1050) = Some 7"
  by (simp add: loadedOnce_entry get_def peek_def isStale_def isFresh_def isExpired_def)


text \<open>
  Claim C2, amended. \<open>peek\<close> checks expiry only: an entry that is not expired, fresh or
  stale, is returned and nothing changes, the eviction order included; an expired entry
  is removed with reason \<open>expired\<close> and nothing is returned; a missing key returns nothing
  and changes nothing.
\<close>

theorem peek_checks_expiry_only:
  assumes i: "inv c"
  shows "(mapGet c k = None \<longrightarrow> peek c k now = (None, c)) \<and>
         (\<forall>r e. mapGet c k = Some (r, e) \<longrightarrow>
            (\<not> isExpired e now \<longrightarrow> peek c k now = (Some (val e), c)) \<and>
            (isExpired e now \<longrightarrow>
               fst (peek c k now) = None \<and>
               mapGet (snd (peek c k now)) k = None \<and>
               order (snd (peek c k now)) = remove1 r (order c) \<and>
               stats (snd (peek c k now)) = (stats c)\<lparr>evictions := evictions (stats c) + 1\<rparr> \<and>
               observed (snd (peek c k now)) =
                 observed c @ [OnEvict k (val e) Expired, Emit Evict k (Some (val e))]))"
proof -
  from i have w: "wf c (order c)" by (rule inv_wf)
  have "\<And>r e. mapGet c k = Some (r, e) \<Longrightarrow> isExpired e now \<Longrightarrow>
               fst (peek c k now) = None \<and>
               mapGet (snd (peek c k now)) k = None \<and>
               order (snd (peek c k now)) = remove1 r (order c) \<and>
               stats (snd (peek c k now)) = (stats c)\<lparr>evictions := evictions (stats c) + 1\<rparr> \<and>
               observed (snd (peek c k now)) =
                 observed c @ [OnEvict k (val e) Expired, Emit Evict k (Some (val e))]"
  proof -
    fix r e assume g: "mapGet c k = Some (r, e)" and x: "isExpired e now"
    from mapGet_in_store[OF g] have m: "(k, r) \<in> set (map_store c)" and h: "heap c r = Some e" by simp_all
    from wf_lookup[OF w m] h have ke: "key e = k" by auto
    have "wf (removeEntry c r Expired) (remove1 r (order c))" using wf_removeEntry(1)[OF w m] .
    then have o: "order (removeEntry c r Expired) = remove1 r (order c)" by (rule wf_order)
    show "fst (peek c k now) = None \<and>
               mapGet (snd (peek c k now)) k = None \<and>
               order (snd (peek c k now)) = remove1 r (order c) \<and>
               stats (snd (peek c k now)) = (stats c)\<lparr>evictions := evictions (stats c) + 1\<rparr> \<and>
               observed (snd (peek c k now)) =
                 observed c @ [OnEvict k (val e) Expired, Emit Evict k (Some (val e))]"
      using peek_expired[OF g x] mapGet_removed[OF w g, of Expired] o h ke
      by (simp add: removeEntry_Some)
  qed
  then show ?thesis using peek_absent[of c k now] peek_live[of c k _ _ now] by blast
qed

theorem peek_checks_expiry_only_witness:
  "peek loadedOnce ''k'' 1050 = (Some 7, loadedOnce) \<and>
   fst (peek loadedOnce ''k'' 1300) = None \<and>
   mapGet (snd (peek loadedOnce ''k'' 1300)) ''k'' = None \<and>
   order (snd (peek loadedOnce ''k'' 1300)) = [] \<and>
   peek loadedOnce ''j'' 1050 = (None, loadedOnce)"
proof -
  let ?e = "\<lparr>key = ''k'', val = 7::nat, expiresAt = 1000, staleUntil = 1200, prev = None, nxt = None\<rparr>"
  note t = peek_checks_expiry_only[OF loadedOnce_inv]
  note t1 = t[of "''k''" 1050, THEN conjunct2, THEN spec, THEN spec, THEN mp, OF loadedOnce_entry]
  note t2 = t[of "''k''" 1300, THEN conjunct2, THEN spec, THEN spec, THEN mp, OF loadedOnce_entry]
  have a: "\<not> isExpired ?e 1050" and b: "isExpired ?e 1300" by (simp_all add: isExpired_def)
  have n: "mapGet loadedOnce ''j'' = None"
    by (simp add: loadedOnce_def swrOptions_def unfold_ops)
  have o: "order loadedOnce = [0]"
    by (simp add: loadedOnce_def swrOptions_def unfold_ops order_def)
  have 1: "peek loadedOnce ''k'' 1050 = (Some 7, loadedOnce)"
    using t1[THEN conjunct1, THEN mp, OF a] by simp
  have 2: "fst (peek loadedOnce ''k'' 1300) = None"
    "mapGet (snd (peek loadedOnce ''k'' 1300)) ''k'' = None"
    "order (snd (peek loadedOnce ''k'' 1300)) = []"
    using t2[THEN conjunct2, THEN mp, OF b] o by simp_all
  have 3: "peek loadedOnce ''j'' 1050 = (None, loadedOnce)"
    using t[of "''j''" 1050, THEN conjunct1, THEN mp, OF n] .
  show ?thesis using 1 2 3 by simp
qed

section \<open>The windows written by set and by a load\<close>

text \<open>
  Claim C7. Every \<open>set\<close> writes into the entry of its key \<open>expiresAt = now + ttl\<close>, with
  the override or else the configured default as \<open>ttl\<close>, and \<open>staleUntil = expiresAt\<close>.
  Every loader that settles with a value writes \<open>expiresAt = now + ttl\<close> and
  \<open>staleUntil = expiresAt + swr\<close>, with \<open>swr = 0\<close> when none was given; the \<open>ttl\<close> and
  \<open>swr\<close> are those of the call of \<open>getOrSet\<close> that started the loader. The configured
  default is 30000 when the constructor is given none. The entry written is the one of
  the map afterwards, unless the capacity bound is 0 and it is evicted at once.
\<close>

theorem writes_set_the_windows:
  assumes i: "inv c"
  shows "(\<exists>c' e'. set_value c k v ttlOpt now = Some c' \<and>
            heap c' (slotOf c k) = Some e' \<and> key e' = k \<and> val e' = v \<and>
            expiresAt e' = now + (case ttlOpt of None \<Rightarrow> defaultTtlMs c | Some t \<Rightarrow> t) \<and>
            staleUntil e' = expiresAt e' \<and>
            (maxSize c \<noteq> Some 0 \<longrightarrow> mapGet c' k = Some (slotOf c k, e'))) \<and>
         (\<forall>j operation. ops c j = Some operation \<longrightarrow>
            (\<exists>c' e'. settle c j (Ok v) now = Some c' \<and>
               heap c' (slotOf c (op_key operation)) = Some e' \<and>
               key e' = op_key operation \<and> val e' = v \<and>
               expiresAt e' = now + (case op_ttlMs operation of None \<Rightarrow> defaultTtlMs c | Some t \<Rightarrow> t) \<and>
               staleUntil e' = expiresAt e' + (case op_swrMs operation of None \<Rightarrow> 0 | Some w \<Rightarrow> w) \<and>
               (maxSize c \<noteq> Some 0 \<longrightarrow>
                  mapGet c' (op_key operation) = Some (slotOf c (op_key operation), e')))) \<and>
         (\<forall>opts. nextOp (getOrSet c k opts now) \<noteq> nextOp c \<longrightarrow>
            (\<exists>d. ops (getOrSet c k opts now) (nextOp c) =
                    Some \<lparr>op_key = k, op_ttlMs = ttlMs opts, op_swrMs = swrMs opts, op_detached = d\<rparr>)) \<and>
         defaultTtlMs (newTtlCache None (maxSize c) :: ('k, 'v) TtlCache) = 30000 \<and>
         (\<forall>t. defaultTtlMs (newTtlCache (Some t) (maxSize c) :: ('k, 'v) TtlCache) = t)"
proof -
  from i have w: "wf c (order c)" by (rule inv_wf)
  have 1: "\<exists>c' e'. set_value c k v ttlOpt now = Some c' \<and>
            heap c' (slotOf c k) = Some e' \<and> key e' = k \<and> val e' = v \<and>
            expiresAt e' = now + (case ttlOpt of None \<Rightarrow> defaultTtlMs c | Some t \<Rightarrow> t) \<and>
            staleUntil e' = expiresAt e' \<and>
            (maxSize c \<noteq> Some 0 \<longrightarrow> mapGet c' k = Some (slotOf c k, e'))"
  proof -
    from set_value_wf[OF w, of k v ttlOpt now] obtain c' e' where
      "set_value c k v ttlOpt now = Some c'" "heap c' (slotOf c k) = Some e'"
      "payload e' = (k, v, now + ttlOf c ttlOpt, now + ttlOf c ttlOpt)"
      "maxSize c \<noteq> Some 0 \<longrightarrow> mapGet c' k = Some (slotOf c k, e')"
      by blast
    then show ?thesis by (simp add: payload_def ttlOf_def)
  qed
  have 2: "\<forall>j operation. ops c j = Some operation \<longrightarrow>
            (\<exists>c' e'. settle c j (Ok v) now = Some c' \<and>
               heap c' (slotOf c (op_key operation)) = Some e' \<and>
               key e' = op_key operation \<and> val e' = v \<and>
               expiresAt e' = now + (case op_ttlMs operation of None \<Rightarrow> defaultTtlMs c | Some t \<Rightarrow> t) \<and>
               staleUntil e' = expiresAt e' + (case op_swrMs operation of None \<Rightarrow> 0 | Some w \<Rightarrow> w) \<and>
               (maxSize c \<noteq> Some 0 \<longrightarrow>
                  mapGet c' (op_key operation) = Some (slotOf c (op_key operation), e')))"
  proof (intro allI impI)
    fix j operation assume o: "ops c j = Some operation"
    from settle_Ok[OF w o, of v now] obtain c' e' where
      "settle c j (Ok v) now = Some c'" "heap c' (slotOf c (op_key operation)) = Some e'"
      "payload e' = (op_key operation, v, now + ttlOf c (op_ttlMs operation),
                         now + ttlOf c (op_ttlMs operation) + swrOf (op_swrMs operation))"
      "maxSize c \<noteq> Some 0 \<longrightarrow>
              mapGet c' (op_key operation) = Some (slotOf c (op_key operation), e')"
      by blast
    then show "\<exists>c' e'. settle c j (Ok v) now = Some c' \<and>
               heap c' (slotOf c (op_key operation)) = Some e' \<and>
               key e' = op_key operation \<and> val e' = v \<and>
               expiresAt e' = now + (case op_ttlMs operation of None \<Rightarrow> defaultTtlMs c | Some t \<Rightarrow> t) \<and>
               staleUntil e' = expiresAt e' + (case op_swrMs operation of None \<Rightarrow> 0 | Some w \<Rightarrow> w) \<and>
               (maxSize c \<noteq> Some 0 \<longrightarrow>
                  mapGet c' (op_key operation) = Some (slotOf c (op_key operation), e'))"
      by (simp add: payload_def ttlOf_def swrOf_def)
  qed
  have 3: "\<forall>opts. nextOp (getOrSet c k opts now) \<noteq> nextOp c \<longrightarrow>
            (\<exists>d. ops (getOrSet c k opts now) (nextOp c) =
                    Some \<lparr>op_key = k, op_ttlMs = ttlMs opts, op_swrMs = swrMs opts, op_detached = d\<rparr>)"
    using getOrSet_started[of c k _ now] by (simp add: loadOp_def)
  have 4: "defaultTtlMs (newTtlCache None (maxSize c) :: ('k, 'v) TtlCache) = 30000"
    by (simp add: newTtlCache_def DEFAULT_TTL_MS_def)
  have 5: "\<forall>t. defaultTtlMs (newTtlCache (Some t) (maxSize c) :: ('k, 'v) TtlCache) = t"
    by (simp add: newTtlCache_def)
  show ?thesis by (rule conjI[OF 1 conjI[OF 2 conjI[OF 3 conjI[OF 4 5]]]])
qed


theorem writes_set_the_windows_witness:
  "(case set_value loading ''a'' 5 None 10 of
      None \<Rightarrow> False
    | Some c' \<Rightarrow> map_option (\<lambda>re. (expiresAt (snd re), staleUntil (snd re))) (mapGet c' ''a'')
                 = Some (30010, 30010)) \<and>
   (case set_value loading ''a'' 5 (Some 50) 10 of
      None \<Rightarrow> False
    | Some c' \<Rightarrow> map_option (\<lambda>re. (expiresAt (snd re), staleUntil (snd re))) (mapGet c' ''a'')
                 = Some (60, 60)) \<and>
   (case settle loading 0 (Ok 7) 10 of
      None \<Rightarrow> False
    | Some c' \<Rightarrow> map_option (\<lambda>re. (expiresAt (snd re), staleUntil (snd re))) (mapGet c' ''k'')
                 = Some (1010, 1210))"
proof -
  have f: "defaultTtlMs loading = 30000" "maxSize loading \<noteq> Some 0"
    by (simp_all add: loading_def swrOptions_def unfold_ops)
  note t1 = writes_set_the_windows[OF loading_inv, of "''a''" 5 None 10, THEN conjunct1]
  note t2 = writes_set_the_windows[OF loading_inv, of "''a''" 5 "Some 50" 10, THEN conjunct1]
  note t3 = writes_set_the_windows[OF loading_inv, of "''k''" 7 None 10, THEN conjunct2, THEN conjunct1,
      THEN spec, THEN spec, THEN mp, OF loading_op]
  have 1: "case set_value loading ''a'' 5 None 10 of
      None \<Rightarrow> False
    | Some c' \<Rightarrow> map_option (\<lambda>re. (expiresAt (snd re), staleUntil (snd re))) (mapGet c' ''a'')
                 = Some (30010, 30010)"
    using t1 f by auto
  have 2: "case set_value loading ''a'' 5 (Some 50) 10 of
      None \<Rightarrow> False
    | Some c' \<Rightarrow> map_option (\<lambda>re. (expiresAt (snd re), staleUntil (snd re))) (mapGet c' ''a'')
                 = Some (60, 60)"
    using t2 f by auto
  have 3: "case settle loading 0 (Ok 7) 10 of
      None \<Rightarrow> False
    | Some c' \<Rightarrow> map_option (\<lambda>re. (expiresAt (snd re), staleUntil (snd re))) (mapGet c' ''k'')
                 = Some (1010, 1210)"
    using t3 f by auto
  show ?thesis using 1 2 3 by simp
qed

section \<open>Eviction of the least recently used\<close>

text \<open>
  Claim C6, as stated: \<open>get\<close> on an existing key promotes it to most recent and so
  changes which entry is evicted next. It does so only when it finds the entry fresh.
  In the cache bounded to two entries, \<open>a\<close> is stale at 1050 and is the tail; \<open>get\<close> on
  \<open>a\<close> returns nothing and leaves it the tail, and the insertion of \<open>c\<close> that follows
  evicts \<open>a\<close>.
\<close>

theorem get_on_stale_does_not_promote_counterexample:
  "mapGet staleTail ''a'' =
     Some (0, \<lparr>key = ''a'', val = 1, expiresAt = 1000, staleUntil = 1200, prev = Some 1, nxt = None\<rparr>) \<and>
   order staleTail = [1, 0] \<and>
   order (snd (get staleTail ''a'' 1050)) = [1, 0] \<and>
   tail (list (snd (get staleTail ''a'' 1050))) = Some 0 \<and>
   map_option (\<lambda>c'. map fst (map_store c')) (set_value (snd (get staleTail ''a'' 1050)) ''c'' 3 None 1050)
     = Some [''b'', ''c'']"
proof -
  have g: "get staleTail ''a'' 1050 = (None, countMiss staleTail ''a'')"
    using get_stale[OF staleTail_facts(1), of 1050] by (simp add: isFresh_def isExpired_def)
  have 1: "order (snd (get staleTail ''a'' 1050)) = [1, 0]"
    "tail (list (snd (get staleTail ''a'' 1050))) = Some 0"
    using g staleTail_facts by simp_all
  have 2: "map_option (\<lambda>c'. map fst (map_store c')) (set_value (countMiss staleTail ''a'') ''c'' 3 None 1050)
     = Some [''b'', ''c'']"
    by (simp add: staleTail_def swrOptions_def unfold_ops enforce_done enforce_step)
  show ?thesis using 1 2 g staleTail_facts(1,2) by simp
qed

text \<open>
  Claim C6, amended. \<open>set\<close> and \<open>setWithSwr\<close> share one body. When it inserts a new
  key, the entry goes to the front of the eviction order, and with a capacity bound \<open>m\<close>
  the order is cut to its first \<open>m\<close> entries: what lies beyond is removed from the map
  and the list, the last entry first, each with reason \<open>evicted\<close>, and the map then holds
  at most \<open>m\<close> entries. With no bound nothing is evicted. A write to an existing key,
  and a \<open>get\<close> that finds its entry fresh, move the entry to the front, so that it is no
  longer the tail unless it is alone; a \<open>get\<close> that finds its entry stale leaves the
  order as it is. \<open>peek\<close> on an entry that is not expired changes nothing, and on an
  expired one takes it out and leaves the others in their order.
\<close>

theorem lru_eviction:
  assumes i: "inv c"
  shows "set_value c k v ttlOpt now = writeEntry c k v (now + ttlOf c ttlOpt) (now + ttlOf c ttlOpt) \<and>
         setWithSwr c k v ttlOpt swrOpt now =
           writeEntry c k v (now + ttlOf c ttlOpt) (now + ttlOf c ttlOpt + swrOf swrOpt) \<and>
         (mapGet c k = None \<longrightarrow>
            (\<exists>c'. writeEntry c k v e s = Some c' \<and> inv c' \<and>
               order c' = kept (maxSize c) (nextRef c # order c) \<and>
               map_store c' = filter (\<lambda>kr. snd kr \<in> set (order c')) (map_store c @ [(k, nextRef c)]) \<and>
               observed c' = observed c
                  @ removalObs Evicted (heap c') (rev (dropped (maxSize c) (nextRef c # order c)))
                  @ [Emit SetEv k (Some v)] \<and>
               evictions (stats c') =
                 evictions (stats c) + length (dropped (maxSize c) (nextRef c # order c)) \<and>
               (\<forall>m. maxSize c = Some m \<longrightarrow> length (map_store c') \<le> m) \<and>
               (maxSize c = None \<longrightarrow>
                  map_store c' = map_store c @ [(k, nextRef c)] \<and>
                  observed c' = observed c @ [Emit SetEv k (Some v)]))) \<and>
         (\<forall>r e0. mapGet c k = Some (r, e0) \<longrightarrow>
            (\<exists>c'. writeEntry c k v e s = Some c' \<and> inv c' \<and>
               order c' = r # remove1 r (order c) \<and> map_store c' = map_store c \<and>
               observed c' = observed c @ [Emit SetEv k (Some v)] \<and>
               (order c \<noteq> [r] \<longrightarrow> tail (list c') \<noteq> Some r)) \<and>
            (isFresh e0 now \<longrightarrow>
               order (snd (get c k now)) = r # remove1 r (order c) \<and>
               (order c \<noteq> [r] \<longrightarrow> tail (list (snd (get c k now))) \<noteq> Some r)) \<and>
            (isStale e0 now \<longrightarrow> order (snd (get c k now)) = order c) \<and>
            (\<not> isExpired e0 now \<longrightarrow> snd (peek c k now) = c) \<and>
            (isExpired e0 now \<longrightarrow> order (snd (peek c k now)) = remove1 r (order c)))"
proof -
  from i have w: "wf c (order c)" by (rule inv_wf)
  have 1: "set_value c k v ttlOpt now = writeEntry c k v (now + ttlOf c ttlOpt) (now + ttlOf c ttlOpt)"
    by (simp add: set_value_def ttlOf_def Let_def)
  have 2: "setWithSwr c k v ttlOpt swrOpt now =
           writeEntry c k v (now + ttlOf c ttlOpt) (now + ttlOf c ttlOpt + swrOf swrOpt)"
    by (simp add: setWithSwr_def ttlOf_def swrOf_def Let_def)
  have 3: "mapGet c k = None \<longrightarrow>
            (\<exists>c'. writeEntry c k v e s = Some c' \<and> inv c' \<and>
               order c' = kept (maxSize c) (nextRef c # order c) \<and>
               map_store c' = filter (\<lambda>kr. snd kr \<in> set (order c')) (map_store c @ [(k, nextRef c)]) \<and>
               observed c' = observed c
                  @ removalObs Evicted (heap c') (rev (dropped (maxSize c) (nextRef c # order c)))
                  @ [Emit SetEv k (Some v)] \<and>
               evictions (stats c') =
                 evictions (stats c) + length (dropped (maxSize c) (nextRef c # order c)) \<and>
               (\<forall>m. maxSize c = Some m \<longrightarrow> length (map_store c') \<le> m) \<and>
               (maxSize c = None \<longrightarrow>
                  map_store c' = map_store c @ [(k, nextRef c)] \<and>
                  observed c' = observed c @ [Emit SetEv k (Some v)]))"
    using grow_within_bound[OF i, of k v e s] by (rule impI)
  have 4: "\<forall>r e0. mapGet c k = Some (r, e0) \<longrightarrow>
            (\<exists>c'. writeEntry c k v e s = Some c' \<and> inv c' \<and>
               order c' = r # remove1 r (order c) \<and> map_store c' = map_store c \<and>
               observed c' = observed c @ [Emit SetEv k (Some v)] \<and>
               (order c \<noteq> [r] \<longrightarrow> tail (list c') \<noteq> Some r)) \<and>
            (isFresh e0 now \<longrightarrow>
               order (snd (get c k now)) = r # remove1 r (order c) \<and>
               (order c \<noteq> [r] \<longrightarrow> tail (list (snd (get c k now))) \<noteq> Some r)) \<and>
            (isStale e0 now \<longrightarrow> order (snd (get c k now)) = order c) \<and>
            (\<not> isExpired e0 now \<longrightarrow> snd (peek c k now) = c) \<and>
            (isExpired e0 now \<longrightarrow> order (snd (peek c k now)) = remove1 r (order c))"
  proof (intro allI impI)
    fix r e0 assume g: "mapGet c k = Some (r, e0)"
    from mapGet_in_store[OF g] have m: "(k, r) \<in> set (map_store c)" by simp
    have a: "\<exists>c'. writeEntry c k v e s = Some c' \<and> inv c' \<and>
               order c' = r # remove1 r (order c) \<and> map_store c' = map_store c \<and>
               observed c' = observed c @ [Emit SetEv k (Some v)] \<and>
               (order c \<noteq> [r] \<longrightarrow> tail (list c') \<noteq> Some r)"
      using rewrite_promotes[OF i g] .
    have b: "isFresh e0 now \<longrightarrow>
               order (snd (get c k now)) = r # remove1 r (order c) \<and>
               (order c \<noteq> [r] \<longrightarrow> tail (list (snd (get c k now))) \<noteq> Some r)"
      using get_promotes[OF i g] by (rule impI)
    have b2: "isStale e0 now \<longrightarrow> order (snd (get c k now)) = order c"
      using get_stale[OF g, of now] by (simp add: isStale_def isFresh_def isExpired_def)
    have c: "\<not> isExpired e0 now \<longrightarrow> snd (peek c k now) = c"
      using peek_live[OF g] by simp
    have d: "isExpired e0 now \<longrightarrow> order (snd (peek c k now)) = remove1 r (order c)"
      using peek_expired[OF g] wf_order[OF wf_removeEntry(1)[OF w m, of Expired]] by simp
    show "(\<exists>c'. writeEntry c k v e s = Some c' \<and> inv c' \<and>
               order c' = r # remove1 r (order c) \<and> map_store c' = map_store c \<and>
               observed c' = observed c @ [Emit SetEv k (Some v)] \<and>
               (order c \<noteq> [r] \<longrightarrow> tail (list c') \<noteq> Some r)) \<and>
            (isFresh e0 now \<longrightarrow>
               order (snd (get c k now)) = r # remove1 r (order c) \<and>
               (order c \<noteq> [r] \<longrightarrow> tail (list (snd (get c k now))) \<noteq> Some r)) \<and>
            (isStale e0 now \<longrightarrow> order (snd (get c k now)) = order c) \<and>
            (\<not> isExpired e0 now \<longrightarrow> snd (peek c k now) = c) \<and>
            (isExpired e0 now \<longrightarrow> order (snd (peek c k now)) = remove1 r (order c))"
      by (rule conjI[OF a conjI[OF b conjI[OF b2 conjI[OF c d]]]])
  qed
  show ?thesis by (rule conjI[OF 1 conjI[OF 2 conjI[OF 3 4]]])
qed


theorem lru_eviction_witness:
  "map_option (\<lambda>c'. map fst (map_store c')) (set_value twoOfTwo ''c'' 3 None 1) = Some [''b'', ''c''] \<and>
   map_option (\<lambda>c'. map fst (map_store c')) (set_value (snd (get twoOfTwo ''a'' 1)) ''c'' 3 None 1)
     = Some [''a'', ''c''] \<and>
   map_option (\<lambda>c'. map fst (map_store c')) (set_value (snd (peek twoOfTwo ''a'' 1)) ''c'' 3 None 1)
     = Some [''b'', ''c'']"
proof -
  let ?ea = "\<lparr>key = ''a'', val = 1::nat, expiresAt = 30000, staleUntil = 30000, prev = Some 1, nxt = None\<rparr>"
  let ?G = "snd (get twoOfTwo ''a'' 1)"
  have ga: "mapGet twoOfTwo ''a'' = Some (0, ?ea)" and gc: "mapGet twoOfTwo ''c'' = None"
    and o: "order twoOfTwo = [1, 0]" and n: "nextRef twoOfTwo = 2" and b: "maxSize twoOfTwo = Some 2"
    and st: "map_store twoOfTwo = [(''a'', 0), (''b'', 1)]"
    by (simp_all add: twoOfTwo_eq mapGet_def order_def)
  have f: "isFresh ?ea 1" and x: "\<not> isExpired ?ea 1" by (simp_all add: isFresh_def isExpired_def)
  note t = lru_eviction[OF twoOfTwo_inv]
  \<comment> \<open>a third key on the full cache: the tail, \<open>a\<close>, goes\<close>
  from t[of "''c''" 3 None 1, THEN conjunct2, THEN conjunct2, THEN conjunct1, THEN mp, OF gc,
        of "1 + ttlOf twoOfTwo None" "1 + ttlOf twoOfTwo None"]
  obtain c1 where c1: "writeEntry twoOfTwo ''c'' 3 (1 + ttlOf twoOfTwo None) (1 + ttlOf twoOfTwo None) = Some c1"
    "order c1 = kept (maxSize twoOfTwo) (nextRef twoOfTwo # order twoOfTwo)"
    "map_store c1 = filter (\<lambda>kr. snd kr \<in> set (order c1)) (map_store twoOfTwo @ [(''c'', nextRef twoOfTwo)])"
    by blast
  have 1: "map_option (\<lambda>c'. map fst (map_store c')) (set_value twoOfTwo ''c'' 3 None 1) = Some [''b'', ''c'']"
    using t[of "''c''" 3 None 1, THEN conjunct1] c1 o n b st by (simp add: kept_def)
  \<comment> \<open>after \<open>get\<close> of \<open>a\<close>: the tail is \<open>b\<close>\<close>
  have oG: "order ?G = [0, 1]"
    using t[of "''a''" 0 None 1, THEN conjunct2, THEN conjunct2, THEN conjunct2,
            THEN spec, THEN spec, THEN mp, OF ga, THEN conjunct2, THEN conjunct1, THEN mp, OF f] o
    by simp
  have G1: "inv ?G" by (rule inv_get[OF twoOfTwo_inv])
  have G: "map_store ?G = [(''a'', 0), (''b'', 1)]" "mapGet ?G ''c'' = None" "nextRef ?G = 2"
    "maxSize ?G = Some 2"
    using get_hit[OF ga f] n b st by (simp_all add: mapGet_def)
  note u = lru_eviction[OF G1]
  from u[of "''c''" 3 None 1, THEN conjunct2, THEN conjunct2, THEN conjunct1, THEN mp, OF G(2),
        of "1 + ttlOf ?G None" "1 + ttlOf ?G None"]
  obtain c2 where c2: "writeEntry ?G ''c'' 3 (1 + ttlOf ?G None) (1 + ttlOf ?G None) = Some c2"
    "order c2 = kept (maxSize ?G) (nextRef ?G # order ?G)"
    "map_store c2 = filter (\<lambda>kr. snd kr \<in> set (order c2)) (map_store ?G @ [(''c'', nextRef ?G)])"
    by blast
  have 2: "map_option (\<lambda>c'. map fst (map_store c')) (set_value ?G ''c'' 3 None 1) = Some [''a'', ''c'']"
    using u[of "''c''" 3 None 1, THEN conjunct1] c2 oG G by (simp add: kept_def)
  \<comment> \<open>after \<open>peek\<close> of \<open>a\<close>: nothing has changed\<close>
  have "snd (peek twoOfTwo ''a'' 1) = twoOfTwo"
    using t[of "''a''" 0 None 1, THEN conjunct2, THEN conjunct2, THEN conjunct2,
            THEN spec, THEN spec, THEN mp, OF ga, THEN conjunct2, THEN conjunct2, THEN conjunct2,
            THEN conjunct1, THEN mp, OF x] .
  then have 3: "map_option (\<lambda>c'. map fst (map_store c')) (set_value (snd (peek twoOfTwo ''a'' 1)) ''c'' 3 None 1)
     = Some [''b'', ''c'']"
    using 1 by simp
  show ?thesis using 1 2 3 by simp
qed

section \<open>A load that outlives delete and clear\<close>

text \<open>
  Claim C10. \<open>delete\<close> and \<open>clear\<close> take the entry of the key out of the map and leave a
  pending load pending. When the loader then settles with a value, in the state as it
  was or after the \<open>delete\<close> or the \<open>clear\<close>, the value is written by \<open>setWithSwr\<close>
  exactly as that function writes it: into the entry under the key (a new one where the
  key is gone), which is afterwards the entry of the map under the key and the head of
  the list, unless the capacity bound is 0.
\<close>

theorem load_outlives_delete_and_clear:
  fixes c :: "('k, 'v) TtlCache"
  assumes i: "inv c" and o: "ops c j = Some operation"
  shows "ops (snd (delete c (op_key operation))) j = Some operation \<and>
         mapGet (snd (delete c (op_key operation))) (op_key operation) = None \<and>
         ops (clear c) j = Some operation \<and>
         mapGet (clear c) (op_key operation) = None \<and>
         (\<forall>d. d = c \<or> d = snd (delete c (op_key operation)) \<or> d = clear c \<longrightarrow>
            (\<exists>c1 c' e'.
               setWithSwr d (op_key operation) v (op_ttlMs operation) (op_swrMs operation) now = Some c1 \<and>
               settle d j (Ok v) now = Some c' \<and>
               heap c' = heap c1 \<and> list c' = list c1 \<and> map_store c' = map_store c1 \<and>
               heap c' (slotOf d (op_key operation)) = Some e' \<and>
               key e' = op_key operation \<and> val e' = v \<and>
               (maxSize c \<noteq> Some 0 \<longrightarrow>
                  mapGet c' (op_key operation) = Some (slotOf d (op_key operation), e') \<and>
                  head (list c') = Some (slotOf d (op_key operation)))))"
proof -
  let ?k = "op_key operation"
  let ?D = "snd (delete c ?k)"
  note de = delete_effect[OF i, of ?k]
  note ce = clear_effect[of c]
  have 1: "ops ?D j = Some operation" using de(3) o by (simp add: same_rest_def)
  have 2: "mapGet ?D ?k = None" using de(2) .
  have 3: "ops (clear c) j = Some operation" using ce o by (simp add: same_rest_def)
  have 4: "mapGet (clear c) ?k = None" by (rule clear_mapGet)
  have m: "maxSize ?D = maxSize c" "maxSize (clear c) = maxSize c"
    using de(3) ce by (simp_all add: same_rest_def)
  have gen: "\<And>d. inv d \<Longrightarrow> ops d j = Some operation \<Longrightarrow> maxSize d = maxSize c \<Longrightarrow>
            (\<exists>c1 c' e'.
               setWithSwr d ?k v (op_ttlMs operation) (op_swrMs operation) now = Some c1 \<and>
               settle d j (Ok v) now = Some c' \<and>
               heap c' = heap c1 \<and> list c' = list c1 \<and> map_store c' = map_store c1 \<and>
               heap c' (slotOf d ?k) = Some e' \<and>
               key e' = ?k \<and> val e' = v \<and>
               (maxSize c \<noteq> Some 0 \<longrightarrow>
                  mapGet c' ?k = Some (slotOf d ?k, e') \<and> head (list c') = Some (slotOf d ?k)))"
  proof -
    fix d :: "('k, 'v) TtlCache"
    assume d: "inv d" "ops d j = Some operation" "maxSize d = maxSize c"
    from settle_Ok[OF inv_wf[OF d(1)] d(2), where v=v and now=now] obtain c1 c' e' where
      "setWithSwr d ?k v (op_ttlMs operation) (op_swrMs operation) now = Some c1"
      "settle d j (Ok v) now = Some c'"
      "heap c' = heap c1" "list c' = list c1" "map_store c' = map_store c1"
      "heap c' (slotOf d ?k) = Some e'"
      "payload e' = (?k, v, now + ttlOf d (op_ttlMs operation),
                         now + ttlOf d (op_ttlMs operation) + swrOf (op_swrMs operation))"
      "maxSize d \<noteq> Some 0 \<longrightarrow>
              mapGet c' ?k = Some (slotOf d ?k, e') \<and> head (list c') = Some (slotOf d ?k)"
      by blast
    then show "\<exists>c1 c' e'.
               setWithSwr d ?k v (op_ttlMs operation) (op_swrMs operation) now = Some c1 \<and>
               settle d j (Ok v) now = Some c' \<and>
               heap c' = heap c1 \<and> list c' = list c1 \<and> map_store c' = map_store c1 \<and>
               heap c' (slotOf d ?k) = Some e' \<and>
               key e' = ?k \<and> val e' = v \<and>
               (maxSize c \<noteq> Some 0 \<longrightarrow>
                  mapGet c' ?k = Some (slotOf d ?k, e') \<and> head (list c') = Some (slotOf d ?k))"
      using d(3) by (simp add: payload_def)
  qed
  have 5: "\<forall>d. d = c \<or> d = ?D \<or> d = clear c \<longrightarrow>
            (\<exists>c1 c' e'.
               setWithSwr d ?k v (op_ttlMs operation) (op_swrMs operation) now = Some c1 \<and>
               settle d j (Ok v) now = Some c' \<and>
               heap c' = heap c1 \<and> list c' = list c1 \<and> map_store c' = map_store c1 \<and>
               heap c' (slotOf d ?k) = Some e' \<and>
               key e' = ?k \<and> val e' = v \<and>
               (maxSize c \<noteq> Some 0 \<longrightarrow>
                  mapGet c' ?k = Some (slotOf d ?k, e') \<and> head (list c') = Some (slotOf d ?k)))"
  proof (intro allI impI)
    fix d assume "d = c \<or> d = ?D \<or> d = clear c"
    then have "inv d \<and> ops d j = Some operation \<and> maxSize d = maxSize c"
      using i o de(1) inv_clear[of c] 1 3 m by auto
    then show "\<exists>c1 c' e'.
               setWithSwr d ?k v (op_ttlMs operation) (op_swrMs operation) now = Some c1 \<and>
               settle d j (Ok v) now = Some c' \<and>
               heap c' = heap c1 \<and> list c' = list c1 \<and> map_store c' = map_store c1 \<and>
               heap c' (slotOf d ?k) = Some e' \<and>
               key e' = ?k \<and> val e' = v \<and>
               (maxSize c \<noteq> Some 0 \<longrightarrow>
                  mapGet c' ?k = Some (slotOf d ?k, e') \<and> head (list c') = Some (slotOf d ?k))"
      using gen[of d] by blast
  qed
  show ?thesis by (rule conjI[OF 1 conjI[OF 2 conjI[OF 3 conjI[OF 4 5]]]])
qed

theorem load_outlives_delete_and_clear_witness:
  "map_option (\<lambda>re. val (snd re)) (mapGet setWhileLoading ''k'') = Some 1 \<and>
   mapGet (snd (delete setWhileLoading ''k'')) ''k'' = None \<and>
   (case settle (snd (delete setWhileLoading ''k'')) 0 (Ok 7) 5 of
      None \<Rightarrow> False
    | Some c' \<Rightarrow> map_option (\<lambda>re. val (snd re)) (mapGet c' ''k'') = Some 7) \<and>
   mapGet (clear setWhileLoading) ''k'' = None \<and>
   (case settle (clear setWhileLoading) 0 (Ok 7) 5 of
      None \<Rightarrow> False
    | Some c' \<Rightarrow> map_option (\<lambda>re. val (snd re)) (mapGet c' ''k'') = Some 7)"
proof -
  note t = load_outlives_delete_and_clear[OF setWhileLoading_inv setWhileLoading_facts(1), of 7 5]
  have k: "op_key \<lparr>op_key = ''k'', op_ttlMs = Some 1000, op_swrMs = Some 200, op_detached = False\<rparr> = ''k''"
    by simp
  have nz: "maxSize setWhileLoading \<noteq> Some 0" using setWhileLoading_facts(2) by simp
  have 2: "mapGet (snd (delete setWhileLoading ''k'')) ''k'' = None"
    using t[THEN conjunct2, THEN conjunct1] by simp
  have 4: "mapGet (clear setWhileLoading) ''k'' = None"
    using t[THEN conjunct2, THEN conjunct2, THEN conjunct2, THEN conjunct1] by simp
  note all = t[THEN conjunct2, THEN conjunct2, THEN conjunct2, THEN conjunct2]
  have 3: "case settle (snd (delete setWhileLoading ''k'')) 0 (Ok 7) 5 of
      None \<Rightarrow> False
    | Some c' \<Rightarrow> map_option (\<lambda>re. val (snd re)) (mapGet c' ''k'') = Some 7"
    using all[THEN spec, of "snd (delete setWhileLoading ''k'')"] nz by auto
  have 5: "case settle (clear setWhileLoading) 0 (Ok 7) 5 of
      None \<Rightarrow> False
    | Some c' \<Rightarrow> map_option (\<lambda>re. val (snd re)) (mapGet c' ''k'') = Some 7"
    using all[THEN spec, of "clear setWhileLoading"] nz by auto
  show ?thesis using setWhileLoading_facts(3) 2 3 4 5 by simp
qed

section \<open>Cancellation\<close>

text \<open>
  Claim C9. A call of \<open>getOrSet\<close> whose signal has already fired returns a promise
  rejected with the abort error and changes nothing else: no loader is called, no entry,
  counter or registry entry is touched. When a signal fires while a caller waits with
  it on a pending load, that caller's promise is rejected with the abort error; the load
  stays pending; every promise that does not wait with this signal is as it was; and
  when the loader settles, every caller waiting on it with another signal or none gets
  its value or its error, while the cancelled caller keeps the abort error.
\<close>

theorem cancellation_is_per_caller:
  fixes c :: "('k, 'v) TtlCache"
  assumes i: "inv c"
  shows "(\<forall>opts sg. signal opts = Some sg \<and> sg \<in> set (aborted c) \<longrightarrow>
            getOrSet c k opts now = c\<lparr>promises := promises c @ [Rejected AbortError]\<rparr>) \<and>
         (\<forall>sg p j fin operation.
            sg \<notin> set (aborted c) \<and> p < length (promises c) \<and>
            promises c ! p = Waiting j (Some sg) fin \<and> ops c j = Some operation \<longrightarrow>
              promises (abort c sg) ! p = Rejected AbortError \<and>
              ops (abort c sg) = ops c \<and> nextOp (abort c sg) = nextOp c \<and>
              (\<forall>q. q < length (promises c) \<and> (\<forall>j' f. promises c ! q \<noteq> Waiting j' (Some sg) f) \<longrightarrow>
                   promises (abort c sg) ! q = promises c ! q) \<and>
              (\<exists>c'. settle (abort c sg) j res now = Some c' \<and>
                    promises c' ! p = Rejected AbortError \<and>
                    (\<forall>q s f. q < length (promises c) \<and> promises c ! q = Waiting j s f \<and> s \<noteq> Some sg \<longrightarrow>
                       promises c' ! q = outcome res)))"
proof -
  have 1: "\<forall>opts sg. signal opts = Some sg \<and> sg \<in> set (aborted c) \<longrightarrow>
            getOrSet c k opts now = c\<lparr>promises := promises c @ [Rejected AbortError]\<rparr>"
    by (auto simp: getOrSet_aborted notAborted_def returnPromise_def)
  have 2: "\<forall>sg p j fin operation.
            sg \<notin> set (aborted c) \<and> p < length (promises c) \<and>
            promises c ! p = Waiting j (Some sg) fin \<and> ops c j = Some operation \<longrightarrow>
              promises (abort c sg) ! p = Rejected AbortError \<and>
              ops (abort c sg) = ops c \<and> nextOp (abort c sg) = nextOp c \<and>
              (\<forall>q. q < length (promises c) \<and> (\<forall>j' f. promises c ! q \<noteq> Waiting j' (Some sg) f) \<longrightarrow>
                   promises (abort c sg) ! q = promises c ! q) \<and>
              (\<exists>c'. settle (abort c sg) j res now = Some c' \<and>
                    promises c' ! p = Rejected AbortError \<and>
                    (\<forall>q s f. q < length (promises c) \<and> promises c ! q = Waiting j s f \<and> s \<noteq> Some sg \<longrightarrow>
                       promises c' ! q = outcome res))"
  proof (intro allI impI)
    fix sg p j fin operation
    assume a: "sg \<notin> set (aborted c) \<and> p < length (promises c) \<and>
            promises c ! p = Waiting j (Some sg) fin \<and> ops c j = Some operation"
    then have ap: "promises (abort c sg) = map (cancel sg) (promises c)" by (simp add: abort_promises)
    have p: "promises (abort c sg) ! p = Rejected AbortError" using a ap by simp
    have others: "\<forall>q. q < length (promises c) \<and> (\<forall>j' f. promises c ! q \<noteq> Waiting j' (Some sg) f) \<longrightarrow>
                   promises (abort c sg) ! q = promises c ! q"
      using ap by (simp add: cancel_other)
    have o: "ops (abort c sg) j = Some operation" using a by simp
    from settle_effect[OF inv_abort[OF i] o, of res now] obtain c' where c':
      "settle (abort c sg) j res now = Some c'"
      "promises c' = map (deliver j res) (promises (abort c sg))"
      by blast
    have p': "promises c' ! p = Rejected AbortError" using c'(2) ap a by simp
    have q': "\<forall>q s f. q < length (promises c) \<and> promises c ! q = Waiting j s f \<and> s \<noteq> Some sg \<longrightarrow>
                       promises c' ! q = outcome res"
      using c'(2) ap by simp
    show "promises (abort c sg) ! p = Rejected AbortError \<and>
              ops (abort c sg) = ops c \<and> nextOp (abort c sg) = nextOp c \<and>
              (\<forall>q. q < length (promises c) \<and> (\<forall>j' f. promises c ! q \<noteq> Waiting j' (Some sg) f) \<longrightarrow>
                   promises (abort c sg) ! q = promises c ! q) \<and>
              (\<exists>c'. settle (abort c sg) j res now = Some c' \<and>
                    promises c' ! p = Rejected AbortError \<and>
                    (\<forall>q s f. q < length (promises c) \<and> promises c ! q = Waiting j s f \<and> s \<noteq> Some sg \<longrightarrow>
                       promises c' ! q = outcome res))"
      using p others c'(1) p' q' by simp
  qed
  show ?thesis by (rule conjI[OF 1 2])
qed

theorem cancellation_is_per_caller_witness:
  "promises (abort twoWaiters 0) = [Rejected AbortError, Waiting 0 None False] \<and>
   ops (abort twoWaiters 0) 0 = ops twoWaiters 0 \<and>
   (case settle (abort twoWaiters 0) 0 (Ok 7) 5 of
      None \<Rightarrow> False
    | Some c' \<Rightarrow> promises c' = [Rejected AbortError, Resolved 7]) \<and>
   (case settle (abort twoWaiters 0) 0 (Err ''boom'') 5 of
      None \<Rightarrow> False
    | Some c' \<Rightarrow> promises c' = [Rejected AbortError, Rejected (LoaderError ''boom'')]) \<and>
   getOrSet (abort twoWaiters 0) ''k'' signalOptions 1 =
     (abort twoWaiters 0)\<lparr>promises := [Rejected AbortError, Waiting 0 None False, Rejected AbortError]\<rparr>"
proof -
  let ?op = "\<lparr>op_key = ''k'', op_ttlMs = None, op_swrMs = None, op_detached = False\<rparr>"
  have h: "0 \<notin> set (aborted twoWaiters) \<and> 0 < length (promises twoWaiters) \<and>
           promises twoWaiters ! 0 = Waiting 0 (Some 0) True \<and> ops twoWaiters 0 = Some ?op"
    by (simp add: twoWaiters_facts)
  note t = cancellation_is_per_caller[OF twoWaiters_inv, THEN conjunct2, THEN spec, THEN spec, THEN spec,
      THEN spec, THEN spec, THEN mp, OF h]
  have len: "length (promises (abort twoWaiters 0)) = 2"
    by (simp add: abort_promises twoWaiters_facts)
  have 1: "promises (abort twoWaiters 0) = [Rejected AbortError, Waiting 0 None False]"
    by (simp add: abort_promises twoWaiters_facts)
  have 2: "ops (abort twoWaiters 0) 0 = ops twoWaiters 0"
    using t[of "Ok 7" 5] by simp
  from t[of "Ok 7" 5] obtain c1 where c1: "settle (abort twoWaiters 0) 0 (Ok 7) 5 = Some c1"
    "promises c1 ! 0 = Rejected AbortError"
    "\<forall>q s f. q < length (promises twoWaiters) \<and> promises twoWaiters ! q = Waiting 0 s f \<and> s \<noteq> Some 0 \<longrightarrow>
        promises c1 ! q = outcome (Ok 7)"
    by blast
  have se: "ops (abort twoWaiters 0) 0 = Some ?op" by (simp add: twoWaiters_facts)
  have l1: "length (promises c1) = 2"
    using c1(1) settle_effect[OF inv_abort[OF twoWaiters_inv] se, of "Ok 7" 5] len by auto
  have "promises c1 ! 1 = Resolved 7" using c1(3)[THEN spec, THEN spec, THEN spec, of 1 None False] by (simp add: twoWaiters_facts outcome_def)
  then have 3: "promises c1 = [Rejected AbortError, Resolved 7]"
    using c1(2) l1 by (auto simp: list_eq_iff_nth_eq less_Suc_eq numeral_2_eq_2)
  from t[of "Err ''boom''" 5] obtain c2 where c2: "settle (abort twoWaiters 0) 0 (Err ''boom'') 5 = Some c2"
    "promises c2 ! 0 = Rejected AbortError"
    "\<forall>q s f. q < length (promises twoWaiters) \<and> promises twoWaiters ! q = Waiting 0 s f \<and> s \<noteq> Some 0 \<longrightarrow>
        promises c2 ! q = outcome (Err ''boom'')"
    by blast
  have l2: "length (promises c2) = 2"
    using c2(1) settle_effect[OF inv_abort[OF twoWaiters_inv] se, of "Err ''boom''" 5] len by auto
  have "promises c2 ! 1 = Rejected (LoaderError ''boom'')"
    using c2(3)[THEN spec, THEN spec, THEN spec, of 1 None False] by (simp add: twoWaiters_facts outcome_def)
  then have 4: "promises c2 = [Rejected AbortError, Rejected (LoaderError ''boom'')]"
    using c2(2) l2 by (auto simp: list_eq_iff_nth_eq less_Suc_eq numeral_2_eq_2)
  have ab: "signal signalOptions = Some 0 \<and> 0 \<in> set (aborted (abort twoWaiters 0))"
    by (simp add: signalOptions_def abort_def twoWaiters_facts)
  have 5: "getOrSet (abort twoWaiters 0) ''k'' signalOptions 1 =
     (abort twoWaiters 0)\<lparr>promises := [Rejected AbortError, Waiting 0 None False, Rejected AbortError]\<rparr>"
    using cancellation_is_per_caller[OF inv_abort[OF twoWaiters_inv], THEN conjunct1, THEN spec, THEN spec,
        THEN mp, OF ab, of "''k''" 1] 1
    by simp
  show ?thesis using 1 2 3 4 5 c1(1) c2(1) by simp
qed

section \<open>One loader for concurrent calls\<close>

text \<open>
  Claim C1. A call of \<open>getOrSet\<close> is one step up to its \<open>await\<close>: the source has no
  suspension point between \<open>this.map.get(key)\<close> and \<open>this.inflight.set(key, promise)\<close>, and
  \<open>executeLoader\<close> calls the loader before it suspends. So the step that finds the miss
  is the step that calls the loader and registers the pending load. Let the key have
  no fresh or stale entry and no load registered, and let callers with \<open>dedupe\<close> on (the
  default) and signals that have not fired call one after the other, nothing else
  happening in between. Then the loader has been called once, by the first of them;
  and when it settles, each of these calls resolves with its value, or each is rejected
  with its error.
\<close>


theorem one_loader_for_concurrent_calls:
  fixes c :: "('k, 'v) TtlCache"
  assumes i: "inv c" and nl: "noLiveEntry c k now" and nf: "inflight c k = None"
    and first: "notAborted c opts \<and> dedupe opts \<noteq> Some False"
    and rest: "list_all (\<lambda>ot. notAborted c (fst ot) \<and> dedupe (fst ot) \<noteq> Some False) others"
  shows "inflight (getOrSet c k opts now) k = Some (nextOp c) \<and>
         ops (getOrSet c k opts now) (nextOp c) = Some (loadOp k opts False) \<and>
         nextOp (getOrSet c k opts now) = nextOp c + 1 \<and>
         nextOp (fold (\<lambda>ot s. getOrSet s k (fst ot) (snd ot)) others (getOrSet c k opts now))
           = nextOp c + 1 \<and>
         length (promises (fold (\<lambda>ot s. getOrSet s k (fst ot) (snd ot)) others (getOrSet c k opts now)))
           = length (promises c) + 1 + length others \<and>
         (\<exists>c'. settle (fold (\<lambda>ot s. getOrSet s k (fst ot) (snd ot)) others (getOrSet c k opts now))
                       (nextOp c) res t = Some c' \<and>
               length (promises c') = length (promises c) + 1 + length others \<and>
               (\<forall>n \<le> length others. promises c' ! (length (promises c) + n) = outcome res) \<and>
               nextOp c' = nextOp c + 1 \<and> inflight c' k = None)"
proof -
  let ?c1 = "getOrSet c k opts now"
  let ?cN = "fold (\<lambda>ot s. getOrSet s k (fst ot) (snd ot)) others ?c1"
  let ?j = "nextOp c"
  note f = getOrSet_first[OF i first[THEN conjunct1] nl first[THEN conjunct2] nf]
  have l: "list_all (\<lambda>ot. notAborted ?c1 (fst ot) \<and> dedupe (fst ot) \<noteq> Some False) others"
    using rest notAborted_cong[OF f(7)] by (simp add: list_all_iff)
  note r = joiners_fold[OF f(1) f(2) f(3) l]
  have pN: "promises ?cN = promises c @ Waiting ?j (signal opts) True
                # map (\<lambda>ot. Waiting ?j (signal (fst ot)) False) others"
    using r f(6) by simp
  have oN: "ops ?cN ?j = Some (loadOp k opts False)" using r f(4) by simp
  have iN: "inv ?cN" using r by simp
  have fin: "hasFinally (promises ?cN) ?j" by (simp add: pN hasFinally_def)
  from settle_effect[OF iN oN, of res t] obtain c' where c':
    "settle ?cN ?j res t = Some c'"
    "promises c' = map (deliver ?j res) (promises ?cN)"
    "inflight c' = (if op_detached (loadOp k opts False) \<or> hasFinally (promises ?cN) ?j
                    then (inflight ?cN)(op_key (loadOp k opts False) := None) else inflight ?cN)"
    "nextOp c' = nextOp ?cN"
    by blast
  have all: "\<forall>n \<le> length others. promises c' ! (length (promises c) + n) = outcome res"
  proof (intro allI impI)
    fix n assume n: "n \<le> length others"
    have "promises ?cN ! (length (promises c) + n) =
            (Waiting ?j (signal opts) True # map (\<lambda>ot. Waiting ?j (signal (fst ot)) False) others) ! n"
      by (simp add: pN nth_append)
    then have "\<exists>s fl. promises ?cN ! (length (promises c) + n) = Waiting ?j s fl"
      using n by (cases n) auto
    moreover have "length (promises c) + n < length (promises ?cN)" using n by (simp add: pN)
    ultimately show "promises c' ! (length (promises c) + n) = outcome res"
      using c'(2) by auto
  qed
  have reg: "inflight c' k = None" using c'(3) fin by (simp add: loadOp_def)
  have "length (promises c') = length (promises c) + 1 + length others" using c'(2) pN by simp
  then show ?thesis using f(3,4,5) r pN c'(1,4) all reg by simp
qed

theorem one_loader_for_concurrent_calls_witness:
  "nextOp (fold (\<lambda>ot s. getOrSet s ''k'' (fst ot) (snd ot)) [(plainOptions, 0), (signalOptions, 1)]
             (getOrSet (newTtlCache None None :: (string, nat) TtlCache) ''k'' plainOptions 0)) = 1 \<and>
   (case settle (fold (\<lambda>ot s. getOrSet s ''k'' (fst ot) (snd ot)) [(plainOptions, 0), (signalOptions, 1)]
                   (getOrSet (newTtlCache None None :: (string, nat) TtlCache) ''k'' plainOptions 0))
                0 (Ok 7) 5 of
      None \<Rightarrow> False
    | Some c' \<Rightarrow> promises c' = [Resolved 7, Resolved 7, Resolved 7])"
proof -
  let ?c = "newTtlCache None None :: (string, nat) TtlCache"
  have h: "noLiveEntry ?c ''k'' 0" "inflight ?c ''k'' = None"
    "notAborted ?c plainOptions \<and> dedupe plainOptions \<noteq> Some False"
    "list_all (\<lambda>ot. notAborted ?c (fst ot) \<and> dedupe (fst ot) \<noteq> Some False)
       [(plainOptions, 0), (signalOptions, 1)]"
    "nextOp ?c = 0" "promises ?c = []"
    by (simp_all add: noLiveEntry_def mapGet_def newTtlCache_def notAborted_def plainOptions_def
        signalOptions_def)
  note t = one_loader_for_concurrent_calls[OF inv_new h(1) h(2) h(3) h(4), of "Ok 7" 5]
  from t obtain c' where c':
    "settle (fold (\<lambda>ot s. getOrSet s ''k'' (fst ot) (snd ot)) [(plainOptions, 0), (signalOptions, 1)]
                   (getOrSet ?c ''k'' plainOptions 0)) (nextOp ?c) (Ok 7) 5 = Some c'"
    "length (promises c') = length (promises ?c) + 1 + length [(plainOptions, 0::int), (signalOptions, 1)]"
    "\<forall>n \<le> length [(plainOptions, 0::int), (signalOptions, 1)].
        promises c' ! (length (promises ?c) + n) = outcome (Ok 7)"
    by blast
  have n: "promises c' ! 0 = Resolved 7" "promises c' ! 1 = Resolved 7" "promises c' ! 2 = Resolved 7"
    using c'(3)[THEN spec, of 0] c'(3)[THEN spec, of 1] c'(3)[THEN spec, of 2] h(6)
    by (simp_all add: outcome_def numeral_2_eq_2)
  have "length (promises c') = 3" using c'(2) h(6) by simp
  then have "promises c' = [Resolved 7, Resolved 7, Resolved 7]"
    using n by (auto simp: list_eq_iff_nth_eq less_Suc_eq numeral_3_eq_3 numeral_2_eq_2)
  then show ?thesis using t c'(1) h(5) by simp
qed

section \<open>Stale while revalidate\<close>





section \<open>The registry entry of a pending load\<close>

text \<open>
  Claim C3 says that the registry entry of a key is removed exactly when its pending load
  settles, whatever waits on it are cancelled. The \<open>finally\<close> of \<open>getOrSet\<close> that
  deletes the entry hangs on the wait of the caller that started the load, not on the
  load. Two callers wait on the load of \<open>k\<close>, the first, who started it, with a signal.
  The signal fires: the first caller is rejected, the load is still pending, and the
  registry entry is gone. A third caller now finds no load registered and calls the
  loader again: two loads of \<open>k\<close> are pending.
\<close>


theorem owner_abort_unregisters_pending_load:
  "promises twoWaiters = [Waiting 0 (Some 0) True, Waiting 0 None False] \<and>
   inflight twoWaiters ''k'' = Some 0 \<and>
   promises (abort twoWaiters 0) = [Rejected AbortError, Waiting 0 None False] \<and>
   ops (abort twoWaiters 0) 0 \<noteq> None \<and>
   inflight (abort twoWaiters 0) ''k'' = None \<and>
   nextOp (abort twoWaiters 0) = 1 \<and>
   nextOp (getOrSet (abort twoWaiters 0) ''k'' plainOptions 1) = 2 \<and>
   ops (getOrSet (abort twoWaiters 0) ''k'' plainOptions 1) 0 \<noteq> None \<and>
   ops (getOrSet (abort twoWaiters 0) ''k'' plainOptions 1) 1 \<noteq> None"
  by (simp add: twoWaiters_def signalOptions_def plainOptions_def unfold_ops)


section \<open>The correspondence of map and list\<close>

text \<open>
  Claim C8 says that after every public operation, iteration among them, the map and
  the eviction list hold the same entries. Along every run of \<open>set\<close>, \<open>get\<close>, \<open>peek\<close>,
  \<open>has\<close>, \<open>delete\<close>, \<open>clear\<close>, \<open>prune\<close> and \<open>getOrSet\<close> with its loaders and signals they do
  (\<open>inv_run\<close>). The iterator keeps the expired entries it has passed and removes them
  when it is exhausted, whether or not they are still in the cache. Here the consumer
  reads \<open>a\<close> between two steps of the iteration: \<open>get\<close> removes the expired \<open>a\<close>, the
  iterator then removes it a second time, and unlinking the entry that is no longer
  linked sets \<open>head\<close> and \<open>tail\<close> to \<open>null\<close>. The map still holds \<open>b\<close>; the list is
  empty; the eviction counter has counted \<open>a\<close> twice.
\<close>

theorem iteration_with_read_breaks_correspondence:
  "inv twoTtls \<and>
   fst firstNext = Some (''b'', 2) \<and>
   gen_expired (fst (snd firstNext)) = [0] \<and>
   inv readInBody \<and> map_store readInBody = [(''b'', 1)] \<and> order readInBody = [1] \<and>
   fst secondNext = None \<and>
   map_store (snd (snd secondNext)) = [(''b'', 1)] \<and>
   list (snd (snd secondNext)) = \<lparr>head = None, tail = None\<rparr> \<and>
   order (snd (snd secondNext)) = [] \<and>
   evictions (stats (snd (snd secondNext))) = 2 \<and>
   \<not> inv (snd (snd secondNext))"
proof -
  have 1: "inv twoTtls" by (auto simp: twoTtls_eq unfold_inv)
  have 2: "inv readInBody" by (simp add: readInBody_eq unfold_inv)
  have 3: "map_store (snd (snd secondNext)) = [(''b'', 1)]"
    "list (snd (snd secondNext)) = \<lparr>head = None, tail = None\<rparr>"
    "fst secondNext = None" "evictions (stats (snd (snd secondNext))) = 2"
    by (simp_all add: secondNext_def firstNext_eq readInBody_eq generatorNext_def unfold_ops)
  have 4: "order (snd (snd secondNext)) = []" using 3 by (simp add: order_def)
  have 5: "\<not> inv (snd (snd secondNext))" using 3 4 by (simp add: inv_def wf_def)
  show ?thesis using 1 2 3 4 5 by (simp add: firstNext_eq readInBody_eq order_def)
qed

end
